theory Spec2Isabelle
  imports Main "HOL-Library.Multiset"
begin

section \<open>Values of the host language\<close>

text \<open>
  The library works on untyped JavaScript values. A value is a scalar, an array, a plain
  object (its own enumerable string-keyed properties, listed in the order in which
  \<^verbatim>\<open>Object.keys\<close> enumerates them) or a promise. Arrays and objects are reference
  values: each carries the reference under which it was allocated, so that "the same
  container" and "a newly constructed container" can be told apart. Numbers are the
  integers (the library does no arithmetic of its own). A promise is given by the value
  it fulfils with; promises that reject or never settle are not modelled. Values are
  finite trees: arrays are dense (no holes), no container contains itself, and a promise
  that fulfils with a value that holds a promise that fulfils with such a value, and
  so on for ever, is not a value of the model. (The host never fulfils a promise with a
  promise: a promise directly inside a promise stands for no value of the host.)
\<close>

type_synonym ref = nat

datatype step = Key string | Index nat

type_synonym TPath = "step list"

datatype jsval =
    JUndefined
  | JNull
  | JBool bool
  | JNum int
  | JStr string
  | JArr ref "jsval list"
  | JObj ref "(string \<times> jsval) list"
  | JPromise jsval

type_synonym optional = "jsval option"

text \<open>\<^verbatim>\<open>present(value)\<close> is \<open>Some value\<close>, \<^verbatim>\<open>empty()\<close> is \<open>None\<close>.\<close>

definition present :: "jsval \<Rightarrow> optional" where
  "present v = Some v"

definition empty_optional :: "optional" where
  "empty_optional = None"

text \<open>The decimal numeral of a number used as a property key, and back.\<close>

definition digit_char :: "nat \<Rightarrow> char" where
  "digit_char d = ''0123456789'' ! d"

fun string_of_nat :: "nat \<Rightarrow> string" where
  "string_of_nat n =
     (if n < 10 then [digit_char n]
      else string_of_nat (n div 10) @ [digit_char (n mod 10)])"

declare string_of_nat.simps [simp del]

definition string_of_int :: "int \<Rightarrow> string" where
  "string_of_int i = (if i < 0 then CHR ''-'' # string_of_nat (nat (- i)) else string_of_nat (nat i))"

fun nat_of_digits :: "nat \<Rightarrow> string \<Rightarrow> nat option" where
  "nat_of_digits acc [] = Some acc"
| "nat_of_digits acc (c # cs) =
     (let d = (of_char c :: nat) in
      if 48 \<le> d \<and> d \<le> 57 then nat_of_digits (10 * acc + (d - 48)) cs else None)"

definition array_index_of :: "string \<Rightarrow> nat option" where
  "array_index_of k =
     (if k = [] then None
      else case nat_of_digits 0 k of
             None \<Rightarrow> None
           | Some i \<Rightarrow> if string_of_nat i = k then Some i else None)"

definition key_of_step :: "step \<Rightarrow> string" where
  "key_of_step st = (case st of Key k \<Rightarrow> k | Index i \<Rightarrow> string_of_nat i)"

text \<open>
  \<^verbatim>\<open>value[key]\<close> on a value that is neither \<^verbatim>\<open>null\<close> nor \<^verbatim>\<open>undefined\<close>: own
  properties only (what a value inherits from its prototype reads as \<^verbatim>\<open>undefined\<close>
  here). On \<^verbatim>\<open>null\<close> and \<^verbatim>\<open>undefined\<close> the host raises a TypeError.
\<close>

datatype error = Error string | TypeError

definition is_nullish :: "jsval \<Rightarrow> bool" where
  "is_nullish v = (v = JNull \<or> v = JUndefined)"

definition nth_or_undefined :: "jsval list \<Rightarrow> nat \<Rightarrow> jsval" where
  "nth_or_undefined xs i = (if i < length xs then xs ! i else JUndefined)"

definition own_property :: "(string \<times> jsval) list \<Rightarrow> string \<Rightarrow> jsval" where
  "own_property kvs k = (case map_of kvs k of None \<Rightarrow> JUndefined | Some v \<Rightarrow> v)"

definition js_get :: "jsval \<Rightarrow> step \<Rightarrow> error + jsval" where
  "js_get v st =
     (case v of
        JUndefined \<Rightarrow> Inl TypeError
      | JNull \<Rightarrow> Inl TypeError
      | JArr r xs \<Rightarrow>
          (case st of
             Index i \<Rightarrow> Inr (nth_or_undefined xs i)
           | Key k \<Rightarrow>
               if k = ''length'' then Inr (JNum (int (length xs)))
               else (case array_index_of k of
                       Some i \<Rightarrow> Inr (nth_or_undefined xs i)
                     | None \<Rightarrow> Inr JUndefined))
      | JObj r kvs \<Rightarrow> Inr (own_property kvs (key_of_step st))
      | JStr s \<Rightarrow>
          (if key_of_step st = ''length'' then Inr (JNum (int (length s)))
           else (case array_index_of (key_of_step st) of
                   Some i \<Rightarrow> Inr (if i < length s then JStr [s ! i] else JUndefined)
                 | None \<Rightarrow> Inr JUndefined))
      | _ \<Rightarrow> Inr JUndefined)"

section \<open>Path lookup\<close>

text \<open>
  \<^verbatim>\<open>recordLookup(path, valueKeyFn)(record)\<close>. The loop runs over the keys of
  \<open>path\<close>; its four variables are the fields of the state. \<^verbatim>\<open>break\<close> returns the
  state as it is; an exception of \<open>valueKeyFn\<close> leaves the loop as \<open>Inl\<close>.
  \<^verbatim>\<open>unresolvedPath.shift()\<close> is \<open>tl\<close> (on the empty list both leave it empty).
\<close>

record IRecordLookupResult =
  resolvedPath :: TPath
  unresolvedPath :: TPath
  "value" :: jsval
  "values" :: "jsval list"

fun recordLookup_loop ::
  "(jsval \<Rightarrow> step \<Rightarrow> error + jsval) \<Rightarrow> TPath \<Rightarrow> IRecordLookupResult
     \<Rightarrow> error + IRecordLookupResult" where
  "recordLookup_loop valueKeyFn [] st = Inr st"
| "recordLookup_loop valueKeyFn (key # keys) st =
     (if value st = JNull \<or> value st = JUndefined then Inr st
      else (case valueKeyFn (value st) key of
              Inl e \<Rightarrow> Inl e
            | Inr v \<Rightarrow>
                recordLookup_loop valueKeyFn keys
                  (st\<lparr> values := values st @ [value st],
                       value := v,
                       resolvedPath := resolvedPath st @ [key],
                       unresolvedPath := tl (unresolvedPath st) \<rparr>)))"

definition recordLookup ::
  "TPath \<Rightarrow> (jsval \<Rightarrow> step \<Rightarrow> error + jsval) \<Rightarrow> jsval \<Rightarrow> error + IRecordLookupResult" where
  "recordLookup path valueKeyFn record =
     recordLookup_loop valueKeyFn path
       \<lparr> resolvedPath = [], unresolvedPath = path, value = record, values = [] \<rparr>"

text \<open>The default step function, \<^verbatim>\<open>(value, key) => value[key]\<close>.\<close>

definition recordLookup_default :: "TPath \<Rightarrow> jsval \<Rightarrow> error + IRecordLookupResult" where
  "recordLookup_default path record = recordLookup path js_get record"

text \<open>
  The result of a lookup below the root, seen from the root: the keys walked and the
  values visited on the way are put in front.
\<close>

fun prepend_visited ::
  "TPath \<Rightarrow> jsval list \<Rightarrow> error + IRecordLookupResult \<Rightarrow> error + IRecordLookupResult" where
  "prepend_visited ks vs (Inl e) = Inl e"
| "prepend_visited ks vs (Inr r) =
     Inr (r\<lparr>resolvedPath := ks @ resolvedPath r, values := vs @ values r\<rparr>)"

section \<open>Single-level folds\<close>

text \<open>
  Everything a caller's function can read or change besides its arguments is the state
  \<open>'s\<close>, passed in and returned: a handler or a callback is a function of its arguments
  and the state. Functions that throw are outside this model of the traversal.
\<close>

type_synonym 's TPathFn = "jsval \<Rightarrow> TPath \<Rightarrow> 's \<Rightarrow> jsval \<times> 's"

type_synonym 's TOptPathFn = "jsval \<Rightarrow> TPath \<Rightarrow> 's \<Rightarrow> optional \<times> 's"

text \<open>
  \<^verbatim>\<open>IArrReduction\<close> and \<^verbatim>\<open>IObjReduction\<close> differ in the type of the key that the
  callback receives: an index or a property name.
\<close>

record ('k, 's) IReduction =
  initial :: "'s \<Rightarrow> jsval \<times> 's"
  callback :: "jsval \<Rightarrow> jsval \<Rightarrow> 'k \<Rightarrow> 's \<Rightarrow> jsval \<times> 's"

type_synonym 's IArrReduction = "(nat, 's) IReduction"

type_synonym 's IObjReduction = "(string, 's) IReduction"

text \<open>\<^verbatim>\<open>rs.reduce(callbackfn, prev)\<close> of the host, from index \<open>index\<close> on.\<close>

fun array_reduce ::
  "(jsval \<Rightarrow> jsval \<Rightarrow> nat \<Rightarrow> 's \<Rightarrow> jsval \<times> 's) \<Rightarrow> nat \<Rightarrow> jsval list \<Rightarrow> jsval \<Rightarrow> 's
     \<Rightarrow> jsval \<times> 's" where
  "array_reduce callbackfn index [] prev s = (prev, s)"
| "array_reduce callbackfn index (current # rest) prev s =
     (case callbackfn prev current index s of
        (prev', s') \<Rightarrow> array_reduce callbackfn (Suc index) rest prev' s')"

text \<open>\<^verbatim>\<open>Object.keys(record)\<close>: the property list is kept in enumeration order.\<close>

definition object_keys :: "(string \<times> jsval) list \<Rightarrow> string list" where
  "object_keys rec = map fst rec"

text \<open>
  \<^verbatim>\<open>recordReducer(callback, initial)(record)\<close>: the seed is made by a call of
  \<open>init\<close>, then the callback runs once for each key, on \<^verbatim>\<open>record[key]\<close>.
\<close>

fun recordReducer_loop ::
  "(jsval \<Rightarrow> jsval \<Rightarrow> string \<Rightarrow> 's \<Rightarrow> jsval \<times> 's) \<Rightarrow> (string \<times> jsval) list \<Rightarrow> string list
     \<Rightarrow> jsval \<Rightarrow> 's \<Rightarrow> jsval \<times> 's" where
  "recordReducer_loop cb rec [] acc s = (acc, s)"
| "recordReducer_loop cb rec (key # keys) acc s =
     (case cb acc (own_property rec key) key s of
        (acc', s') \<Rightarrow> recordReducer_loop cb rec keys acc' s')"

definition recordReducer ::
  "(jsval \<Rightarrow> jsval \<Rightarrow> string \<Rightarrow> 's \<Rightarrow> jsval \<times> 's) \<Rightarrow> ('s \<Rightarrow> jsval \<times> 's)
     \<Rightarrow> (string \<times> jsval) list \<Rightarrow> 's \<Rightarrow> jsval \<times> 's" where
  "recordReducer cb init rec s =
     (case init s of
        (acc, s') \<Rightarrow> recordReducer_loop cb rec (object_keys rec) acc s')"

section \<open>The copy reductions\<close>

text \<open>
  \<^verbatim>\<open>[]\<close> and \<^verbatim>\<open>{}\<close> allocate: the new container gets the next free reference of
  the heap. \<^verbatim>\<open>prev.push(current)\<close> and \<^verbatim>\<open>prev[key] = current\<close> change the container
  \<open>prev\<close> and return it: the same reference with the new contents. Assigning to a key the
  object has keeps the key's place; a new key is enumerated last. The key
  \<^verbatim>\<open>__proto__\<close> is the exception: an object made by \<^verbatim>\<open>{}\<close> inherits an accessor of
  that name, so assigning to it on an object that has no property of its own of that name
  calls the accessor and creates no property (the accessor sets the prototype of the
  object, which is not part of a value here, when it is given an object or
  \<^verbatim>\<open>null\<close>, and does nothing otherwise). (Both callbacks are only ever given the
  container their own \<open>initial\<close> made; on any other value they are written here to
  return it as it is.)
\<close>

record heap =
  next_ref :: ref

definition js_set_property ::
  "(string \<times> jsval) list \<Rightarrow> string \<Rightarrow> jsval \<Rightarrow> (string \<times> jsval) list" where
  "js_set_property kvs k v =
     (if k \<in> set (map fst kvs)
      then map (\<lambda>(k', v'). if k' = k then (k', v) else (k', v')) kvs
      else if k = ''__proto__'' then kvs
      else kvs @ [(k, v)])"

definition ARR_COPY_REDUCTION :: "('a heap_scheme) IArrReduction" where
  "ARR_COPY_REDUCTION =
     \<lparr> initial = (\<lambda>s. (JArr (next_ref s) [], s\<lparr>next_ref := Suc (next_ref s)\<rparr>)),
       callback = (\<lambda>prev current index s.
          (case prev of
             JArr r xs \<Rightarrow> (JArr r (xs @ [current]), s)
           | _ \<Rightarrow> (prev, s))) \<rparr>"

definition OBJ_COPY_REDUCTION :: "('a heap_scheme) IObjReduction" where
  "OBJ_COPY_REDUCTION =
     \<lparr> initial = (\<lambda>s. (JObj (next_ref s) [], s\<lparr>next_ref := Suc (next_ref s)\<rparr>)),
       callback = (\<lambda>prev current key s.
          (case prev of
             JObj r kvs \<Rightarrow> (JObj r (js_set_property kvs key current), s)
           | _ \<Rightarrow> (prev, s))) \<rparr>"

section \<open>The handlers for arrays and objects\<close>

definition extendArrPathFn ::
  "(jsval list \<Rightarrow> TPath \<Rightarrow> 's \<Rightarrow> jsval \<times> 's) \<Rightarrow> 's TOptPathFn" where
  "extendArrPathFn arrPathFn a path s =
     (case a of
        JArr r rs \<Rightarrow> (case arrPathFn rs path s of (v, s') \<Rightarrow> (present v, s'))
      | _ \<Rightarrow> (empty_optional, s))"

definition arrReductionToRecursivePathFn ::
  "'s IArrReduction \<Rightarrow> 's TPathFn \<Rightarrow> jsval list \<Rightarrow> TPath \<Rightarrow> 's \<Rightarrow> jsval \<times> 's" where
  "arrReductionToRecursivePathFn arrReduction recurse rs path s =
     (case initial arrReduction s of
        (seed, s0) \<Rightarrow>
          array_reduce
            (\<lambda>prev current index s1.
               case recurse current (path @ [Index index]) s1 of
                 (x, s2) \<Rightarrow> callback arrReduction prev x index s2)
            0 rs seed s0)"

text \<open>
  \<^verbatim>\<open>a !== null && typeof a === 'object'\<close> holds of objects, of arrays and of promises.
  What the object handler then folds over are the own enumerable properties: of an
  array its indices, of a promise none.
\<close>

fun own_enumerable :: "jsval \<Rightarrow> (string \<times> jsval) list option" where
  "own_enumerable (JObj r kvs) = Some kvs"
| "own_enumerable (JArr r xs) = Some (zip (map string_of_nat [0..<length xs]) xs)"
| "own_enumerable (JPromise x) = Some []"
| "own_enumerable _ = None"

definition extendObjPathFn ::
  "((string \<times> jsval) list \<Rightarrow> TPath \<Rightarrow> 's \<Rightarrow> jsval \<times> 's) \<Rightarrow> 's TOptPathFn" where
  "extendObjPathFn objPathFunction a path s =
     (case own_enumerable a of
        Some obj \<Rightarrow> (case objPathFunction obj path s of (v, s') \<Rightarrow> (present v, s'))
      | None \<Rightarrow> (empty_optional, s))"

definition objReductionToRecursivePathFn ::
  "'s IObjReduction \<Rightarrow> 's TPathFn \<Rightarrow> (string \<times> jsval) list \<Rightarrow> TPath \<Rightarrow> 's \<Rightarrow> jsval \<times> 's" where
  "objReductionToRecursivePathFn objReduction recurse obj path =
     recordReducer
       (\<lambda>prev current key s1.
          case recurse current (path @ [Key key]) s1 of
            (reducedItem, s2) \<Rightarrow> callback objReduction prev reducedItem key s2)
       (initial objReduction) obj"

section \<open>The traversal engine\<close>

text \<open>
  \<^verbatim>\<open>RecursiveReducer.reduceInternal\<close> over the bound handlers \<^verbatim>\<open>this.pathFns\<close>, in
  their order; a handler that abstains may still have changed the state.
\<close>

fun reduceInternal :: "'s TOptPathFn list \<Rightarrow> jsval \<Rightarrow> TPath \<Rightarrow> 's \<Rightarrow> jsval \<times> 's" where
  "reduceInternal [] current path s = (current, s)"
| "reduceInternal (converter # pathFns) current path s =
     (case converter current path s of
        (Some convertedValue, s') \<Rightarrow> (convertedValue, s')
      | (None, s') \<Rightarrow> reduceInternal pathFns current path s')"

text \<open>
  The constructor binds each factory to \<^verbatim>\<open>recurse\<close>, the \<^verbatim>\<open>reduceInternal\<close> of the
  instance being constructed. The two combinators below are that fixed point for their
  chains: the recursion is on the children of the node, which is where the array and the
  object handler call \<^verbatim>\<open>recurse\<close>. The handler a caller supplies is taken as the bound
  handler (its factory does not use \<^verbatim>\<open>recurse\<close>, as in every use in the repository).
  That each function is the \<open>reduceInternal\<close> of its chain is
  \<open>recursiveMapper_visit_chain\<close> and \<open>recursiveMapperReducer_visit_chain\<close> below.
\<close>

lemma array_reduce_cong [fundef_cong]:
  assumes "rs = rs'" "index = index'" "prev = prev'" "s = s'"
    and same: "\<And>p c i st. c \<in> set rs' \<Longrightarrow> f p c i st = g p c i st"
  shows "array_reduce f index rs prev s = array_reduce g index' rs' prev' s'"
proof -
  have "array_reduce f index rs' prev s = array_reduce g index rs' prev s"
    using same by (induction rs' arbitrary: index prev s) (auto split: prod.splits)
  with assms(1-4) show ?thesis by simp
qed

lemma arrReductionToRecursivePathFn_cong [fundef_cong]:
  "\<lbrakk> red = red'; rs = rs'; path = path'; s = s';
     \<And>c p st. c \<in> set rs' \<Longrightarrow> recurse c p st = recurse' c p st \<rbrakk>
   \<Longrightarrow> arrReductionToRecursivePathFn red recurse rs path s
       = arrReductionToRecursivePathFn red' recurse' rs' path' s'"
  unfolding arrReductionToRecursivePathFn_def
  by (auto split: prod.splits intro!: array_reduce_cong)

lemma recordReducer_loop_cong [fundef_cong]:
  assumes "rec = rec'" "keys = keys'" "v = v'" "s = s'"
    and same: "\<And>p k st. k \<in> set keys' \<Longrightarrow>
                f p (own_property rec' k) k st = g p (own_property rec' k) k st"
  shows "recordReducer_loop f rec keys v s = recordReducer_loop g rec' keys' v' s'"
proof -
  have "recordReducer_loop f rec' keys' v s = recordReducer_loop g rec' keys' v s"
    using same by (induction keys' arbitrary: v s) (auto split: prod.splits)
  with assms(1-4) show ?thesis by simp
qed

lemma objReductionToRecursivePathFn_cong [fundef_cong]:
  "\<lbrakk> red = red'; obj = obj'; path = path'; s = s';
     \<And>k p st. k \<in> set (object_keys obj') \<Longrightarrow>
        recurse (own_property obj' k) p st = recurse' (own_property obj' k) p st \<rbrakk>
   \<Longrightarrow> objReductionToRecursivePathFn red recurse obj path s
       = objReductionToRecursivePathFn red' recurse' obj' path' s'"
  unfolding objReductionToRecursivePathFn_def recordReducer_def
  by (auto split: prod.splits intro!: recordReducer_loop_cong)

lemma size_own_property:
  "k \<in> set (object_keys kvs) \<Longrightarrow> size (own_property kvs k) < size (JObj r kvs)"
  by (induction kvs) (force simp: object_keys_def own_property_def)+

lemma size_array_element: "c \<in> set rs \<Longrightarrow> size c < size (JArr r rs)"
  by (induction rs) auto

function recursiveMapper_visit :: "('a heap_scheme) TOptPathFn \<Rightarrow> ('a heap_scheme) TPathFn" where
  "recursiveMapper_visit pathFn current path s =
     (case pathFn current path s of
        (Some convertedValue, s') \<Rightarrow> (convertedValue, s')
      | (None, s') \<Rightarrow>
          (case current of
             JArr r rs \<Rightarrow>
               arrReductionToRecursivePathFn ARR_COPY_REDUCTION
                 (\<lambda>c p st. recursiveMapper_visit pathFn c p st) rs path s'
           | _ \<Rightarrow>
               (case own_enumerable current of
                  Some obj \<Rightarrow>
                    objReductionToRecursivePathFn OBJ_COPY_REDUCTION
                      (\<lambda>c p st. recursiveMapper_visit pathFn c p st) obj path s'
                | None \<Rightarrow> (current, s'))))"
  by pat_completeness auto
termination
  apply (relation "measure (\<lambda>(pathFn, current, path, s). size current)")
          apply simp
  subgoal by simp
  subgoal by simp
  subgoal by simp
  subgoal by simp
  subgoal by simp
  subgoal using size_array_element by simp
  subgoal using size_own_property by simp
  subgoal by (simp add: object_keys_def)
  done

declare recursiveMapper_visit.simps [simp del]

text \<open>\<^verbatim>\<open>recursiveMapper(() => pathFn)(a)\<close>: \<^verbatim>\<open>reduce(a)\<close> visits \<open>a\<close> at the empty path.\<close>

definition recursiveMapper :: "('a heap_scheme) TOptPathFn \<Rightarrow> jsval \<Rightarrow> 'a heap_scheme \<Rightarrow> jsval \<times> 'a heap_scheme" where
  "recursiveMapper pathFn a s = recursiveMapper_visit pathFn a [] s"

text \<open>
  \<^verbatim>\<open>recursiveMapperReducer(mapper, reduceCallback, reduceInitial, optionalMapper)\<close>.
  \<open>optionalMapper\<close> and \<open>mapper\<close> take the node only, \<open>reduceCallback\<close> the accumulator and
  the item.
\<close>

function recursiveMapperReducer_visit ::
  "(jsval \<Rightarrow> 's \<Rightarrow> jsval \<times> 's) \<Rightarrow> (jsval \<Rightarrow> jsval \<Rightarrow> 's \<Rightarrow> jsval \<times> 's) \<Rightarrow> ('s \<Rightarrow> jsval \<times> 's)
     \<Rightarrow> (jsval \<Rightarrow> 's \<Rightarrow> optional \<times> 's) \<Rightarrow> 's TPathFn" where
  "recursiveMapperReducer_visit mapper reduceCallback reduceInitial optionalMapper current path s =
     (case optionalMapper current s of
        (Some convertedValue, s') \<Rightarrow> (convertedValue, s')
      | (None, s') \<Rightarrow>
          (case current of
             JArr r rs \<Rightarrow>
               arrReductionToRecursivePathFn
                 \<lparr> initial = reduceInitial,
                   callback = (\<lambda>prev cur index. reduceCallback prev cur) \<rparr>
                 (\<lambda>c p st. recursiveMapperReducer_visit mapper reduceCallback reduceInitial
                              optionalMapper c p st)
                 rs path s'
           | _ \<Rightarrow>
               (case own_enumerable current of
                  Some obj \<Rightarrow>
                    objReductionToRecursivePathFn
                      \<lparr> initial = reduceInitial,
                        callback = (\<lambda>prev cur key. reduceCallback prev cur) \<rparr>
                      (\<lambda>c p st. recursiveMapperReducer_visit mapper reduceCallback reduceInitial
                                   optionalMapper c p st)
                      obj path s'
                | None \<Rightarrow> (case mapper current s' of (v, s'') \<Rightarrow> (v, s'')))))"
  by pat_completeness auto
termination
  apply (relation "measure (\<lambda>(mapper, cb, init, opt, current, path, s). size current)")
          apply simp
  subgoal by simp
  subgoal by simp
  subgoal by simp
  subgoal by simp
  subgoal by simp
  subgoal using size_array_element by simp
  subgoal using size_own_property by simp
  subgoal by (simp add: object_keys_def)
  done

declare recursiveMapperReducer_visit.simps [simp del]

text \<open>The default of the fourth parameter, \<^verbatim>\<open>() => empty()\<close>.\<close>

definition default_optionalMapper :: "jsval \<Rightarrow> 's \<Rightarrow> optional \<times> 's" where
  "default_optionalMapper a s = (empty_optional, s)"

definition recursiveMapperReducer ::
  "(jsval \<Rightarrow> 's \<Rightarrow> jsval \<times> 's) \<Rightarrow> (jsval \<Rightarrow> jsval \<Rightarrow> 's \<Rightarrow> jsval \<times> 's) \<Rightarrow> ('s \<Rightarrow> jsval \<times> 's)
     \<Rightarrow> (jsval \<Rightarrow> 's \<Rightarrow> optional \<times> 's) option \<Rightarrow> jsval \<Rightarrow> 's \<Rightarrow> jsval \<times> 's" where
  "recursiveMapperReducer mapper reduceCallback reduceInitial optionalMapper a s =
     recursiveMapperReducer_visit mapper reduceCallback reduceInitial
       (case optionalMapper of None \<Rightarrow> default_optionalMapper | Some f \<Rightarrow> f) a [] s"

section \<open>Notions used to state the properties of the engine\<close>

text \<open>
  The state in which the next handler runs when the handlers of \<open>pathFns\<close> have run on
  the node in turn (each one abstaining).
\<close>

definition after_absent :: "'s TOptPathFn list \<Rightarrow> jsval \<Rightarrow> TPath \<Rightarrow> 's \<Rightarrow> 's" where
  "after_absent pathFns current path s = fold (\<lambda>f st. snd (f current path st)) pathFns s"

text \<open>A scalar: not an array, not an object (a promise is one), not \<^verbatim>\<open>null\<close>.\<close>

fun is_scalar :: "jsval \<Rightarrow> bool" where
  "is_scalar JUndefined = True"
| "is_scalar (JBool b) = True"
| "is_scalar (JNum n) = True"
| "is_scalar (JStr s) = True"
| "is_scalar _ = False"

text \<open>
  The fold of the documentation of \<^verbatim>\<open>recursiveMapperReducer\<close> that counts empty
  arrays: every leaf counts 0, the counts are added (on numbers; the host's \<^verbatim>\<open>+\<close> on
  other operands is not needed for it), the seed is 0, and the override claims an empty
  array with the count 1.
\<close>

definition js_plus :: "jsval \<Rightarrow> jsval \<Rightarrow> jsval" where
  "js_plus a b = (case (a, b) of (JNum x, JNum y) \<Rightarrow> JNum (x + y) | _ \<Rightarrow> JUndefined)"

definition countEmptyArrays :: "jsval \<Rightarrow> 's \<Rightarrow> jsval \<times> 's" where
  "countEmptyArrays =
     recursiveMapperReducer
       (\<lambda>a s. (JNum 0, s))
       (\<lambda>prev cur s. (js_plus prev cur, s))
       (\<lambda>s. (JNum 0, s))
       (Some (\<lambda>a s. (case a of JArr r [] \<Rightarrow> present (JNum 1) | _ \<Rightarrow> empty_optional, s)))"

section \<open>The nested-promise resolver\<close>

record IPromisePath =
  promise :: jsval
  path :: TPath

text \<open>
  \<^verbatim>\<open>extractPromises(a)\<close>: a copy of \<^verbatim>\<open>[a]\<close> made by \<open>recursiveMapper\<close> with a
  handler that claims every promise, returns it as it is and records it with its path in
  \<open>promisePaths\<close>, a list the handler shares with \<open>extractPromises\<close>: it is part of
  the state of the traversal, next to the heap.
\<close>

record extract_state = heap +
  promisePaths :: "IPromisePath list"

definition extractPromises_pathFn :: "extract_state TOptPathFn" where
  "extractPromises_pathFn b pa s =
     (case b of
        JPromise x \<Rightarrow>
          (present b, s\<lparr>promisePaths := promisePaths s @ [\<lparr>promise = b, path = pa\<rparr>]\<rparr>)
      | _ \<Rightarrow> (empty_optional, s))"

definition extractPromises :: "jsval \<Rightarrow> heap \<Rightarrow> (IPromisePath list \<times> jsval) \<times> heap" where
  "extractPromises a h =
     (case recursiveMapper extractPromises_pathFn (JArr (next_ref h) [a])
             \<lparr>next_ref = Suc (next_ref h), promisePaths = []\<rparr> of
        (promisified, s) \<Rightarrow> ((promisePaths s, promisified), \<lparr>next_ref = next_ref s\<rparr>))"

text \<open>
  \<^verbatim>\<open>promisePaths.sort(compareFn)\<close>. The comparator is the source's. The sort is the
  host's: it is stable and looks at a result of the comparator only through the test
  \<^verbatim>\<open>< 0\<close> (so does the engine the package runs and is tested on); it is given here as
  the insertion sort that puts an element in front of the first one it compares below.
\<close>

definition promisePath_compare :: "IPromisePath \<Rightarrow> IPromisePath \<Rightarrow> int" where
  "promisePath_compare promisePath1 promisePath2 =
     (if length (path promisePath1) > length (path promisePath2) then - 1 else 1)"

fun array_sort_insert :: "('a \<Rightarrow> 'a \<Rightarrow> int) \<Rightarrow> 'a \<Rightarrow> 'a list \<Rightarrow> 'a list" where
  "array_sort_insert compareFn x [] = [x]"
| "array_sort_insert compareFn x (y # ys) =
     (if compareFn x y < 0 then x # y # ys else y # array_sort_insert compareFn x ys)"

definition array_sort :: "('a \<Rightarrow> 'a \<Rightarrow> int) \<Rightarrow> 'a list \<Rightarrow> 'a list" where
  "array_sort compareFn xs = foldl (\<lambda>sorted x. array_sort_insert compareFn x sorted) [] xs"

text \<open>
  The comparator of the source never returns 0, so which sort the host has matters for
  pairs that it should have reported as equal. To tell what the code fixes from what the
  host does, here is another sort a host may have, the insertion sort that tests
  \<^verbatim>\<open>> 0\<close>: going down from the last element placed, \<open>element\<close> moves in front of
  each \<open>tmp\<close> with \<^verbatim>\<open>comparefn(tmp, element) > 0\<close> and stops at the first other one.
  The elements placed are kept from the last one down. (On a comparator that reports
  equal elements as equal both sorts are the stable sort: \<open>array_sort_is_stable_sort\<close> and
  \<open>array_sort_shift_is_stable_sort\<close> below.)
\<close>

fun array_sort_shift_insert :: "('a \<Rightarrow> 'a \<Rightarrow> int) \<Rightarrow> 'a \<Rightarrow> 'a list \<Rightarrow> 'a list" where
  "array_sort_shift_insert compareFn element [] = [element]"
| "array_sort_shift_insert compareFn element (tmp # below) =
     (if compareFn tmp element > 0 then tmp # array_sort_shift_insert compareFn element below
      else element # tmp # below)"

definition array_sort_shift :: "('a \<Rightarrow> 'a \<Rightarrow> int) \<Rightarrow> 'a list \<Rightarrow> 'a list" where
  "array_sort_shift compareFn xs =
     rev (foldl (\<lambda>placed element. array_sort_shift_insert compareFn element placed) [] xs)"

text \<open>
  \<^verbatim>\<open>await Promise.all(promises)\<close>: each promise gives the value it fulfils with (a
  value that is not a promise gives itself).
\<close>

definition js_await :: "jsval \<Rightarrow> jsval" where
  "js_await p = (case p of JPromise x \<Rightarrow> x | _ \<Rightarrow> p)"

text \<open>\<^verbatim>\<open>(promisified as unknown[])[i]\<close>.\<close>

definition nth_or_undefined_of :: "jsval \<Rightarrow> nat \<Rightarrow> jsval" where
  "nth_or_undefined_of a i = (case a of JArr r xs \<Rightarrow> nth_or_undefined xs i | _ \<Rightarrow> JUndefined)"

text \<open>
  \<^verbatim>\<open>parent[key] = resolvedValue\<close>. On \<^verbatim>\<open>null\<close>, \<^verbatim>\<open>undefined\<close> and on a primitive
  value the assignment raises a TypeError (the module is strict code). On an array an
  index is assigned, the array growing as needed; a property of an array or of a promise
  that is not an element is not part of the model and leaves it as it is.
\<close>

definition js_assign :: "jsval \<Rightarrow> step \<Rightarrow> jsval \<Rightarrow> error + jsval" where
  "js_assign parent key v =
     (case parent of
        JArr r xs \<Rightarrow>
          (case (case key of Index i \<Rightarrow> Some i | Key k \<Rightarrow> array_index_of k) of
             Some i \<Rightarrow>
               Inr (JArr r (if i < length xs then xs[i := v]
                            else xs @ replicate (i - length xs) JUndefined @ [v]))
           | None \<Rightarrow> Inr parent)
      | JObj r kvs \<Rightarrow> Inr (JObj r (js_set_property kvs (key_of_step key) v))
      | JPromise x \<Rightarrow> Inr parent
      | _ \<Rightarrow> Inl TypeError)"

text \<open>
  The assignment changes the object that the lookup reached, in place. In the tree of
  the working structure this is the tree with the node at the walked path replaced by
  the changed object.
\<close>

fun replace_at :: "jsval \<Rightarrow> TPath \<Rightarrow> jsval \<Rightarrow> jsval" where
  "replace_at root [] new = new"
| "replace_at (JArr r xs) (key # keys) new =
     (case (case key of Index i \<Rightarrow> Some i | Key k \<Rightarrow> array_index_of k) of
        Some i \<Rightarrow>
          if i < length xs then JArr r (xs[i := replace_at (xs ! i) keys new]) else JArr r xs
      | None \<Rightarrow> JArr r xs)"
| "replace_at (JObj r kvs) (key # keys) new =
     JObj r (map (\<lambda>(k, v). if k = key_of_step key then (k, replace_at v keys new) else (k, v)) kvs)"
| "replace_at root (key # keys) new = root"

text \<open>
  The last key of a path; \<^verbatim>\<open>path[path.length - 1]\<close> of the empty path is
  \<^verbatim>\<open>undefined\<close>, which as a property key reads \<^verbatim>\<open>'undefined'\<close>.
\<close>

definition last_key :: "TPath \<Rightarrow> step" where
  "last_key pa = (if pa = [] then Key ''undefined'' else last pa)"

definition splice_at :: "jsval \<Rightarrow> TPath \<Rightarrow> jsval \<Rightarrow> error + jsval" where
  "splice_at promisified pa resolvedValue =
     (let parentPath = butlast pa in
      case recordLookup_default parentPath promisified of
        Inl e \<Rightarrow> Inl e
      | Inr res \<Rightarrow>
          (case js_assign (value res) (last_key pa) resolvedValue of
             Inl e \<Rightarrow> Inl e
           | Inr parent \<Rightarrow> Inr (replace_at promisified (resolvedPath res) parent)))"

text \<open>The loop \<^verbatim>\<open>for (let i = 0; i < promises.length; i++)\<close> over the sorted pairs.\<close>

fun splice_loop :: "jsval \<Rightarrow> IPromisePath list \<Rightarrow> jsval list \<Rightarrow> error + jsval" where
  "splice_loop promisified [] resolvedValues = Inr promisified"
| "splice_loop promisified (promisePath # rest) resolvedValues =
     (case splice_at promisified (path promisePath) (nth_or_undefined resolvedValues 0) of
        Inl e \<Rightarrow> Inl e
      | Inr promisified' \<Rightarrow> splice_loop promisified' rest (tl resolvedValues))"

definition limit_message :: "int \<Rightarrow> string" where
  "limit_message limit =
     ''Could not resolve all promises with limit '' @ string_of_int limit @ ''. Sorry.''"

text \<open>
  The loop of \<^verbatim>\<open>promiseAll\<close>, \<^verbatim>\<open>for (let count = 0; ; count++)\<close>, has no bound of
  its own: a run that does not end is the result \<open>None\<close>. \<open>limit\<close> is the parameter after
  its default has been applied, a number; \<^verbatim>\<open>limit && count >= limit\<close> takes the
  number 0 as false.
\<close>

partial_function (option) promiseAll_loop ::
  "int \<Rightarrow> nat \<Rightarrow> jsval \<Rightarrow> heap \<Rightarrow> ((error + jsval) \<times> heap) option" where
  "promiseAll_loop limit cnt valueToExtractPromisesFrom h =
     (case extractPromises valueToExtractPromisesFrom h of
        ((found, promisified), h') \<Rightarrow>
          if length found = 0 then Some (Inr (nth_or_undefined_of promisified 0), h')
          else if limit \<noteq> 0 \<and> int cnt \<ge> limit then Some (Inl (Error (limit_message limit)), h')
          else
            (let sorted = array_sort promisePath_compare found;
                 promises = map promise sorted;
                 resolvedValues = map js_await promises
             in case splice_loop promisified sorted resolvedValues of
                  Inl e \<Rightarrow> Some (Inl e, h')
                | Inr promisified' \<Rightarrow>
                    promiseAll_loop limit (Suc cnt) (nth_or_undefined_of promisified' 0) h'))"

declare promiseAll_loop.simps [code]

text \<open>
  \<^verbatim>\<open>promiseAll(a, limit)\<close>. The parameter is declared \<^verbatim>\<open>limit: number | undefined = 10\<close>:
  a call that passes no limit, or passes \<^verbatim>\<open>undefined\<close>, gets 10.
\<close>

definition promiseAll :: "jsval \<Rightarrow> int option \<Rightarrow> heap \<Rightarrow> ((error + jsval) \<times> heap) option" where
  "promiseAll a limit h =
     promiseAll_loop (case limit of None \<Rightarrow> 10 | Some l \<Rightarrow> l) 0 a h"

section \<open>Notions used to state the properties of copies and of the resolver\<close>

text \<open>
  A value has ordinary keys when the keys of each of its objects are distinct (an object
  has one property for a key) and none of them is \<^verbatim>\<open>__proto__\<close>, the one key that an
  assignment does not create.
\<close>

primrec ordinary_keys :: "jsval \<Rightarrow> bool" where
  "ordinary_keys JUndefined = True"
| "ordinary_keys JNull = True"
| "ordinary_keys (JBool b) = True"
| "ordinary_keys (JNum n) = True"
| "ordinary_keys (JStr s) = True"
| "ordinary_keys (JArr r xs) = list_all ordinary_keys xs"
| "ordinary_keys (JObj r kvs) =
     (distinct (map fst kvs) \<and> ''__proto__'' \<notin> set (map fst kvs) \<and>
      list_all (pred_prod (\<lambda>k. True) ordinary_keys) kvs)"
| "ordinary_keys (JPromise x) = ordinary_keys x"

text \<open>
  Deep equality compares values as trees and does not look at which container a node
  is: two values are deep-equal when they agree once every reference is erased.
\<close>

primrec erase_refs :: "jsval \<Rightarrow> jsval" where
  "erase_refs JUndefined = JUndefined"
| "erase_refs JNull = JNull"
| "erase_refs (JBool b) = JBool b"
| "erase_refs (JNum n) = JNum n"
| "erase_refs (JStr s) = JStr s"
| "erase_refs (JArr r xs) = JArr 0 (map erase_refs xs)"
| "erase_refs (JObj r kvs) = JObj 0 (map (map_prod (\<lambda>k. k) erase_refs) kvs)"
| "erase_refs (JPromise x) = JPromise (erase_refs x)"

definition deep_equal :: "jsval \<Rightarrow> jsval \<Rightarrow> bool" where
  "deep_equal a b = (erase_refs a = erase_refs b)"

text \<open>The references of the containers of a value, outermost first.\<close>

primrec refs_of :: "jsval \<Rightarrow> ref list" where
  "refs_of JUndefined = []"
| "refs_of JNull = []"
| "refs_of (JBool b) = []"
| "refs_of (JNum n) = []"
| "refs_of (JStr s) = []"
| "refs_of (JArr r xs) = r # concat (map refs_of xs)"
| "refs_of (JObj r kvs) = r # concat (map snd (map (map_prod (\<lambda>k. k) refs_of) kvs))"
| "refs_of (JPromise x) = refs_of x"

text \<open>A value built from arrays, objects and scalars only: no promise in it.\<close>

primrec promise_free :: "jsval \<Rightarrow> bool" where
  "promise_free JUndefined = True"
| "promise_free JNull = True"
| "promise_free (JBool b) = True"
| "promise_free (JNum n) = True"
| "promise_free (JStr s) = True"
| "promise_free (JArr r xs) = list_all promise_free xs"
| "promise_free (JObj r kvs) = list_all (pred_prod (\<lambda>k. True) promise_free) kvs"
| "promise_free (JPromise x) = False"

text \<open>
  A copy made by the array and the object handler: every container that is not inside
  a promise is allocated anew, in the order of the traversal, from the reference \<open>n\<close>
  on; scalars and promises are the values themselves. The second component is the next
  free reference.
\<close>

fun fresh_copy :: "ref \<Rightarrow> jsval \<Rightarrow> jsval \<times> ref"
  and fresh_copy_list :: "ref \<Rightarrow> jsval list \<Rightarrow> jsval list \<times> ref"
  and fresh_copy_fields :: "ref \<Rightarrow> (string \<times> jsval) list \<Rightarrow> (string \<times> jsval) list \<times> ref" where
  "fresh_copy n (JArr r xs) = (case fresh_copy_list (Suc n) xs of (ys, n') \<Rightarrow> (JArr n ys, n'))"
| "fresh_copy n (JObj r kvs) = (case fresh_copy_fields (Suc n) kvs of (ys, n') \<Rightarrow> (JObj n ys, n'))"
| "fresh_copy n JUndefined = (JUndefined, n)"
| "fresh_copy n JNull = (JNull, n)"
| "fresh_copy n (JBool b) = (JBool b, n)"
| "fresh_copy n (JNum i) = (JNum i, n)"
| "fresh_copy n (JStr s) = (JStr s, n)"
| "fresh_copy n (JPromise x) = (JPromise x, n)"
| "fresh_copy_list n [] = ([], n)"
| "fresh_copy_list n (x # xs) =
     (case fresh_copy n x of
        (y, n1) \<Rightarrow> (case fresh_copy_list n1 xs of (ys, n2) \<Rightarrow> (y # ys, n2)))"
| "fresh_copy_fields n [] = ([], n)"
| "fresh_copy_fields n (kv # kvs) =
     (case fresh_copy n (snd kv) of
        (y, n1) \<Rightarrow> (case fresh_copy_fields n1 kvs of (ys, n2) \<Rightarrow> ((fst kv, y) # ys, n2)))"

text \<open>
  The promises a scan discovers in a value that stands at the path \<open>pre\<close>, in the order
  of the traversal: the promises not inside another promise, each with its path.
\<close>

fun discovered :: "TPath \<Rightarrow> jsval \<Rightarrow> IPromisePath list"
  and discovered_list :: "TPath \<Rightarrow> nat \<Rightarrow> jsval list \<Rightarrow> IPromisePath list"
  and discovered_fields :: "TPath \<Rightarrow> (string \<times> jsval) list \<Rightarrow> IPromisePath list" where
  "discovered pre (JPromise x) = [\<lparr>promise = JPromise x, path = pre\<rparr>]"
| "discovered pre (JArr r xs) = discovered_list pre 0 xs"
| "discovered pre (JObj r kvs) = discovered_fields pre kvs"
| "discovered pre JUndefined = []"
| "discovered pre JNull = []"
| "discovered pre (JBool b) = []"
| "discovered pre (JNum i) = []"
| "discovered pre (JStr s) = []"
| "discovered_list pre i [] = []"
| "discovered_list pre i (x # xs) =
     discovered (pre @ [Index i]) x @ discovered_list pre (Suc i) xs"
| "discovered_fields pre [] = []"
| "discovered_fields pre (kv # kvs) =
     discovered (pre @ [Key (fst kv)]) (snd kv) @ discovered_fields pre kvs"

text \<open>
  One pass of resolution: every promise that is not inside another promise is replaced
  by the value it fulfils with. The number of passes a value needs is the depth to which
  promises are nested in it, and the fully materialized value has every promise, at any
  depth, replaced.
\<close>

primrec resolve_pass :: "jsval \<Rightarrow> jsval" where
  "resolve_pass JUndefined = JUndefined"
| "resolve_pass JNull = JNull"
| "resolve_pass (JBool b) = JBool b"
| "resolve_pass (JNum n) = JNum n"
| "resolve_pass (JStr s) = JStr s"
| "resolve_pass (JArr r xs) = JArr r (map resolve_pass xs)"
| "resolve_pass (JObj r kvs) = JObj r (map (map_prod (\<lambda>k. k) resolve_pass) kvs)"
| "resolve_pass (JPromise x) = x"

primrec passes_needed :: "jsval \<Rightarrow> nat" where
  "passes_needed JUndefined = 0"
| "passes_needed JNull = 0"
| "passes_needed (JBool b) = 0"
| "passes_needed (JNum n) = 0"
| "passes_needed (JStr s) = 0"
| "passes_needed (JArr r xs) = fold max (map passes_needed xs) 0"
| "passes_needed (JObj r kvs) = fold max (map snd (map (map_prod (\<lambda>k. k) passes_needed) kvs)) 0"
| "passes_needed (JPromise x) = Suc (passes_needed x)"

primrec materialized :: "jsval \<Rightarrow> jsval" where
  "materialized JUndefined = JUndefined"
| "materialized JNull = JNull"
| "materialized (JBool b) = JBool b"
| "materialized (JNum n) = JNum n"
| "materialized (JStr s) = JStr s"
| "materialized (JArr r xs) = JArr r (map materialized xs)"
| "materialized (JObj r kvs) = JObj r (map (map_prod (\<lambda>k. k) materialized) kvs)"
| "materialized (JPromise x) = materialized x"

text \<open>
  The working structure in the middle of the splicing of a pass: the promises at the
  paths of \<open>S\<close> have been replaced, the others not yet. The value stands at the path
  \<open>pre\<close>.
\<close>

fun resolved_at :: "TPath set \<Rightarrow> TPath \<Rightarrow> jsval \<Rightarrow> jsval"
  and resolved_at_list :: "TPath set \<Rightarrow> TPath \<Rightarrow> nat \<Rightarrow> jsval list \<Rightarrow> jsval list"
  and resolved_at_fields ::
    "TPath set \<Rightarrow> TPath \<Rightarrow> (string \<times> jsval) list \<Rightarrow> (string \<times> jsval) list" where
  "resolved_at S pre (JPromise x) = (if pre \<in> S then x else JPromise x)"
| "resolved_at S pre (JArr r xs) = JArr r (resolved_at_list S pre 0 xs)"
| "resolved_at S pre (JObj r kvs) = JObj r (resolved_at_fields S pre kvs)"
| "resolved_at S pre JUndefined = JUndefined"
| "resolved_at S pre JNull = JNull"
| "resolved_at S pre (JBool b) = JBool b"
| "resolved_at S pre (JNum i) = JNum i"
| "resolved_at S pre (JStr s) = JStr s"
| "resolved_at_list S pre i [] = []"
| "resolved_at_list S pre i (x # xs) =
     resolved_at S (pre @ [Index i]) x # resolved_at_list S pre (Suc i) xs"
| "resolved_at_fields S pre [] = []"
| "resolved_at_fields S pre (kv # kvs) =
     (fst kv, resolved_at S (pre @ [Key (fst kv)]) (snd kv)) # resolved_at_fields S pre kvs"

text \<open>
  What a scan of \<open>v\<close> at the path \<open>pre\<close> returns and leaves: the copy, the heap
  after its allocations, and the discovered promises appended to the list.
\<close>

definition scan_result :: "TPath \<Rightarrow> jsval \<Rightarrow> extract_state \<Rightarrow> jsval \<times> extract_state" where
  "scan_result pre v s =
     (fst (fresh_copy (next_ref s) v),
      \<lparr>next_ref = snd (fresh_copy (next_ref s) v),
       promisePaths = promisePaths s @ discovered pre v\<rparr>)"


text \<open>
  A value that needs \<open>n\<close> passes: a promise of an array that holds a promise of an
  array, and so on, \<open>n\<close> promises deep, around the number 1.
\<close>

fun promise_chain :: "nat \<Rightarrow> jsval" where
  "promise_chain 0 = JNum 1"
| "promise_chain (Suc n) = JPromise (JArr 0 [promise_chain n])"


text \<open>
  The handler that abstains on every node, and what a traversal with it returns and
  leaves: the copy, and the heap after its allocations.
\<close>

definition always_absent :: "'s TOptPathFn" where
  "always_absent b pa s = (empty_optional, s)"

definition copy_result :: "jsval \<Rightarrow> 'a heap_scheme \<Rightarrow> jsval \<times> 'a heap_scheme" where
  "copy_result v s =
     (fst (fresh_copy (next_ref s) v), s\<lparr>next_ref := snd (fresh_copy (next_ref s) v)\<rparr>)"


section \<open>Functions that do not depend on shared state\<close>

text \<open>
  The state \<open>'s\<close> holds what the closures of the caller's functions share and can
  change (and the heap, when they allocate). A function of the caller is free of such
  side effects when its result is the same in every state, up to which containers are in
  it, whenever its arguments are (up to which containers they are); a seed factory
  returns a fresh accumulator on each call when what it returns is the same in every
  state in that sense. An accumulator that the calls share is part of the state: a seed
  that returns it reads the state.
\<close>

definition seed_fresh :: "('s \<Rightarrow> jsval \<times> 's) \<Rightarrow> bool" where
  "seed_fresh seed = (\<forall>s s'. deep_equal (fst (seed s)) (fst (seed s')))"

definition combine_pure :: "(jsval \<Rightarrow> jsval \<Rightarrow> 'k \<Rightarrow> 's \<Rightarrow> jsval \<times> 's) \<Rightarrow> bool" where
  "combine_pure combine =
     (\<forall>prev prev' cur cur' k s s'.
        deep_equal prev prev' \<and> deep_equal cur cur'
          \<longrightarrow> deep_equal (fst (combine prev cur k s)) (fst (combine prev' cur' k s')))"

definition mapper_pure :: "(jsval \<Rightarrow> 's \<Rightarrow> jsval \<times> 's) \<Rightarrow> bool" where
  "mapper_pure mapper = (\<forall>a s s'. deep_equal (fst (mapper a s)) (fst (mapper a s')))"

definition override_pure :: "(jsval \<Rightarrow> 's \<Rightarrow> optional \<times> 's) \<Rightarrow> bool" where
  "override_pure override =
     (\<forall>a s s'. rel_option deep_equal (fst (override a s)) (fst (override a s')))"


text \<open>
  The folds of the documentation. \<^verbatim>\<open>() => []\<close> allocates a new array on each
  call; \<^verbatim>\<open>(prev, current) => { prev.push(current); return prev }\<close> changes the
  accumulator it is given and returns it. \<open>sumNumbers\<close> is the example of
  \<^verbatim>\<open>recursiveMapperReducer\<close>.
\<close>

definition fresh_list_seed :: "heap \<Rightarrow> jsval \<times> heap" where
  "fresh_list_seed h = (JArr (next_ref h) [], h\<lparr>next_ref := Suc (next_ref h)\<rparr>)"

definition push_combine :: "jsval \<Rightarrow> jsval \<Rightarrow> 'k \<Rightarrow> 's \<Rightarrow> jsval \<times> 's" where
  "push_combine prev cur k s = (case prev of JArr r xs \<Rightarrow> JArr r (xs @ [cur]) | _ \<Rightarrow> prev, s)"

definition sumNumbers :: "jsval \<Rightarrow> 's \<Rightarrow> jsval \<times> 's" where
  "sumNumbers =
     recursiveMapperReducer
       (\<lambda>a s. (case a of JNum n \<Rightarrow> JNum n | _ \<Rightarrow> JNum 0, s))
       (\<lambda>prev cur s. (js_plus prev cur, s))
       (\<lambda>s. (JNum 0, s))
       None"

text \<open>
  An override with a counter in its closure,
  \<^verbatim>\<open>(a) => typeof a === 'number' ? present(calls++) : empty()\<close>, in a fold whose
  seed, combining function and leaf mapper have no side effects.
\<close>

definition counting_override :: "jsval \<Rightarrow> nat \<Rightarrow> optional \<times> nat" where
  "counting_override a calls =
     (case a of JNum n \<Rightarrow> (present (JNum (int calls)), Suc calls) | _ \<Rightarrow> (empty_optional, calls))"

definition countingFold :: "jsval \<Rightarrow> nat \<Rightarrow> jsval \<times> nat" where
  "countingFold =
     recursiveMapperReducer
       (\<lambda>a s. (JNum 0, s))
       (\<lambda>prev cur s. (js_plus prev cur, s))
       (\<lambda>s. (JNum 0, s))
       (Some counting_override)"

text \<open>
  A seed that is not fresh: \<^verbatim>\<open>() => acc\<close> returns the one array \<open>acc\<close> of its
  closure, and the callback pushes onto it. The state is the contents of \<open>acc\<close>.
\<close>

definition shared_list_seed :: "jsval list \<Rightarrow> jsval \<times> jsval list" where
  "shared_list_seed acc = (JArr 0 acc, acc)"

definition shared_list_push :: "jsval \<Rightarrow> jsval \<Rightarrow> string \<Rightarrow> jsval list \<Rightarrow> jsval \<times> jsval list" where
  "shared_list_push prev cur k acc = (JArr 0 (acc @ [cur]), acc @ [cur])"


section \<open>Properties of the path lookup\<close>

lemma prepend_visited_comp:
  "prepend_visited ks vs (prepend_visited ks' vs' r) = prepend_visited (ks @ ks') (vs @ vs') r"
  by (cases r) simp_all

lemma recordLookup_loop_from:
  "recordLookup_loop f ks \<lparr>resolvedPath = rp, unresolvedPath = up, value = v, values = vs\<rparr> =
     prepend_visited rp vs
       (recordLookup_loop f ks \<lparr>resolvedPath = [], unresolvedPath = up, value = v, values = []\<rparr>)"
proof (induction ks arbitrary: rp up v vs)
  case Nil
  then show ?case by simp
next
  case (Cons k ks)
  show ?case
  proof (cases "f v k")
    case (Inl e)
    then show ?thesis by simp
  next
    case (Inr w)
    have far: "recordLookup_loop f ks
          \<lparr>resolvedPath = rp @ [k], unresolvedPath = tl up, value = w, values = vs @ [v]\<rparr> =
        prepend_visited (rp @ [k]) (vs @ [v])
          (recordLookup_loop f ks
            \<lparr>resolvedPath = [], unresolvedPath = tl up, value = w, values = []\<rparr>)"
      by (rule Cons.IH)
    have near: "recordLookup_loop f ks
          \<lparr>resolvedPath = [k], unresolvedPath = tl up, value = w, values = [v]\<rparr> =
        prepend_visited [k] [v]
          (recordLookup_loop f ks
            \<lparr>resolvedPath = [], unresolvedPath = tl up, value = w, values = []\<rparr>)"
      by (rule Cons.IH)
    show ?thesis using Inr by (simp add: far near prepend_visited_comp)
  qed
qed

lemma recordLookup_nullish:
  "is_nullish root \<Longrightarrow> recordLookup (k # ks) f root =
     Inr \<lparr>resolvedPath = [], unresolvedPath = k # ks, value = root, values = []\<rparr>"
  by (auto simp: recordLookup_def is_nullish_def)

lemma recordLookup_advance:
  "\<not> is_nullish root \<Longrightarrow> recordLookup (k # ks) f root =
     (case f root k of
        Inl e \<Rightarrow> Inl e
      | Inr v \<Rightarrow> prepend_visited [k] [root] (recordLookup ks f v))"
  by (simp add: recordLookup_def is_nullish_def recordLookup_loop_from[of _ _ "[_]"]
      split: sum.splits)

text \<open>
  C7. The lookup walks the path from the root, left to right. At a step whose current
  value is \<^verbatim>\<open>null\<close> or \<^verbatim>\<open>undefined\<close> it stops: that step and all later ones stay in
  \<open>unresolvedPath\<close>, nothing is resolved or visited. At any other value it records the
  value as a visited ancestor, calls the step function, moves the step to
  \<open>resolvedPath\<close> and goes on from the value the step function returned (an exception of
  the step function is the result). In particular, looking up \<^verbatim>\<open>['c', 0]\<close> in
  \<^verbatim>\<open>{a: true, b: [7]}\<close> gives \<open>resolvedPath = ['c']\<close>, \<open>unresolvedPath = [0]\<close>,
  \<open>value = undefined\<close> and the root as the only visited ancestor.
\<close>

theorem recordLookup_walk:
  "(is_nullish root \<longrightarrow>
      recordLookup (key # keys) valueKeyFn root =
        Inr \<lparr>resolvedPath = [], unresolvedPath = key # keys, value = root, values = []\<rparr>) \<and>
   (\<not> is_nullish root \<longrightarrow>
      recordLookup (key # keys) valueKeyFn root =
        (case valueKeyFn root key of
           Inl e \<Rightarrow> Inl e
         | Inr v \<Rightarrow> prepend_visited [key] [root] (recordLookup keys valueKeyFn v))) \<and>
   recordLookup_default [Key ''c'', Index 0]
       (JObj r [(''a'', JBool True), (''b'', JArr r' [JNum 7])]) =
     Inr \<lparr>resolvedPath = [Key ''c''], unresolvedPath = [Index 0], value = JUndefined,
          values = [JObj r [(''a'', JBool True), (''b'', JArr r' [JNum 7])]]\<rparr>"
proof (intro conjI impI)
  assume "is_nullish root"
  then show "recordLookup (key # keys) valueKeyFn root =
        Inr \<lparr>resolvedPath = [], unresolvedPath = key # keys, value = root, values = []\<rparr>"
    by (rule recordLookup_nullish)
next
  assume "\<not> is_nullish root"
  then show "recordLookup (key # keys) valueKeyFn root =
        (case valueKeyFn root key of
           Inl e \<Rightarrow> Inl e
         | Inr v \<Rightarrow> prepend_visited [key] [root] (recordLookup keys valueKeyFn v))"
    by (rule recordLookup_advance)
next
  show "recordLookup_default [Key ''c'', Index 0]
       (JObj r [(''a'', JBool True), (''b'', JArr r' [JNum 7])]) =
     Inr \<lparr>resolvedPath = [Key ''c''], unresolvedPath = [Index 0], value = JUndefined,
          values = [JObj r [(''a'', JBool True), (''b'', JArr r' [JNum 7])]]\<rparr>"
    by (simp add: recordLookup_default_def recordLookup_def js_get_def own_property_def
        key_of_step_def)
qed

theorem recordLookup_walk_witness:
  "is_nullish JNull \<and>
   recordLookup [Key ''a'', Index 0] js_get JNull =
     Inr \<lparr>resolvedPath = [], unresolvedPath = [Key ''a'', Index 0], value = JNull,
          values = []\<rparr> \<and>
   \<not> is_nullish (JObj 0 [(''a'', JBool True), (''b'', JArr 1 [JNum 7])]) \<and>
   recordLookup [Key ''b'', Index 0] js_get (JObj 0 [(''a'', JBool True), (''b'', JArr 1 [JNum 7])]) =
     Inr \<lparr>resolvedPath = [Key ''b'', Index 0], unresolvedPath = [], value = JNum 7,
          values = [JObj 0 [(''a'', JBool True), (''b'', JArr 1 [JNum 7])], JArr 1 [JNum 7]]\<rparr>"
  using recordLookup_walk [of JNull "Key ''a''" "[Index 0]" js_get 0 1]
    recordLookup_walk [of "JObj 0 [(''a'', JBool True), (''b'', JArr 1 [JNum 7])]"
      "Key ''b''" "[Index 0]" js_get 0 1]
  by (simp add: is_nullish_def recordLookup_def js_get_def own_property_def key_of_step_def
      nth_or_undefined_def)

text \<open>
  C10. With the empty path the lookup returns the root as the value, whatever the root
  is (\<^verbatim>\<open>null\<close> and \<^verbatim>\<open>undefined\<close> included) and whatever the step function: nothing
  is resolved, nothing is left unresolved and no ancestor is visited.
\<close>

theorem recordLookup_empty_path:
  "recordLookup [] valueKeyFn root =
     Inr \<lparr>resolvedPath = [], unresolvedPath = [], value = root, values = []\<rparr>"
  by (simp add: recordLookup_def)

section \<open>The combinators are the engine on their chains\<close>

lemma recursiveMapper_visit_chain:
  "recursiveMapper_visit pathFn =
     reduceInternal
       [pathFn,
        extendArrPathFn
          (arrReductionToRecursivePathFn ARR_COPY_REDUCTION (recursiveMapper_visit pathFn)),
        extendObjPathFn
          (objReductionToRecursivePathFn OBJ_COPY_REDUCTION (recursiveMapper_visit pathFn))]"
  apply (intro ext)
  apply (subst recursiveMapper_visit.simps)
  apply (auto simp: extendArrPathFn_def extendObjPathFn_def present_def empty_optional_def
      split: prod.splits option.splits jsval.splits)
  done

lemma recursiveMapperReducer_visit_chain:
  "recursiveMapperReducer_visit mapper reduceCallback reduceInitial optionalMapper =
     reduceInternal
       [\<lambda>a pa. optionalMapper a,
        extendArrPathFn
          (arrReductionToRecursivePathFn
             \<lparr> initial = reduceInitial, callback = (\<lambda>prev cur index. reduceCallback prev cur) \<rparr>
             (recursiveMapperReducer_visit mapper reduceCallback reduceInitial optionalMapper)),
        extendObjPathFn
          (objReductionToRecursivePathFn
             \<lparr> initial = reduceInitial, callback = (\<lambda>prev cur key. reduceCallback prev cur) \<rparr>
             (recursiveMapperReducer_visit mapper reduceCallback reduceInitial optionalMapper)),
        \<lambda>a pa s. case mapper a s of (v, s') \<Rightarrow> (present v, s')]"
  apply (intro ext)
  apply (subst recursiveMapperReducer_visit.simps)
  apply (auto simp: extendArrPathFn_def extendObjPathFn_def present_def empty_optional_def
      split: prod.splits option.splits jsval.splits)
  done

section \<open>First present handler wins\<close>

lemma after_absent_simps [simp]:
  "after_absent [] current pa s = s"
  "after_absent (f # fs) current pa s = after_absent fs current pa (snd (f current pa s))"
  by (simp_all add: after_absent_def)

lemma reduceInternal_present:
  "i < length pathFns \<Longrightarrow>
   (\<forall>j<i. fst ((pathFns ! j) current pa (after_absent (take j pathFns) current pa s)) = None) \<Longrightarrow>
   (pathFns ! i) current pa (after_absent (take i pathFns) current pa s) = (Some v, s') \<Longrightarrow>
   reduceInternal pathFns current pa s = (v, s')"
proof (induction pathFns arbitrary: i s)
  case Nil
  then show ?case by simp
next
  case (Cons f fs)
  show ?case
  proof (cases i)
    case 0
    with Cons.prems show ?thesis by simp
  next
    case (Suc k)
    from Cons.prems(2) Suc have "fst (f current pa s) = None"
      by (auto dest: spec[of _ 0])
    then obtain s1 where fs1: "f current pa s = (None, s1)"
      by (cases "f current pa s") auto
    have "reduceInternal fs current pa s1 = (v, s')"
    proof (rule Cons.IH[of k])
      show "k < length fs" using Cons.prems(1) Suc by simp
      show "\<forall>j<k. fst ((fs ! j) current pa (after_absent (take j fs) current pa s1)) = None"
      proof (intro allI impI)
        fix j assume "j < k"
        then have "Suc j < i" using Suc by simp
        with Cons.prems(2)
        have "fst (((f # fs) ! Suc j) current pa
                (after_absent (take (Suc j) (f # fs)) current pa s)) = None"
          by blast
        then show "fst ((fs ! j) current pa (after_absent (take j fs) current pa s1)) = None"
          using fs1 by simp
      qed
      show "(fs ! k) current pa (after_absent (take k fs) current pa s1) = (Some v, s')"
        using Cons.prems(3) Suc fs1 by simp
    qed
    with fs1 show ?thesis by simp
  qed
qed

lemma reduceInternal_absent:
  "(\<forall>j<length pathFns.
      fst ((pathFns ! j) current pa (after_absent (take j pathFns) current pa s)) = None) \<Longrightarrow>
   reduceInternal pathFns current pa s = (current, after_absent pathFns current pa s)"
proof (induction pathFns arbitrary: s)
  case Nil
  then show ?case by simp
next
  case (Cons f fs)
  from Cons.prems have "fst (f current pa s) = None"
    by (auto dest: spec[of _ 0])
  then obtain s1 where fs1: "f current pa s = (None, s1)"
    by (cases "f current pa s") auto
  have "reduceInternal fs current pa s1 = (current, after_absent fs current pa s1)"
  proof (rule Cons.IH, intro allI impI)
    fix j assume "j < length fs"
    then have "Suc j < length (f # fs)" by simp
    with Cons.prems
    have "fst (((f # fs) ! Suc j) current pa
            (after_absent (take (Suc j) (f # fs)) current pa s)) = None"
      by blast
    then show "fst ((fs ! j) current pa (after_absent (take j fs) current pa s1)) = None"
      using fs1 by simp
  qed
  with fs1 show ?case by simp
qed

lemma recursiveMapper_visit_scalar:
  "is_scalar v \<Longrightarrow> fst (pathFn v pa s) = None \<Longrightarrow>
   recursiveMapper_visit pathFn v pa s = (v, snd (pathFn v pa s))"
  by (cases v; cases "pathFn v pa s") (simp_all add: recursiveMapper_visit.simps)

text \<open>
  C1. For every chain of bound handlers, \<open>reduceInternal\<close> runs them in their order on
  the node and returns the value of the first one whose result is present (the handlers
  before it having abstained); when every handler abstains it returns the node itself.
  In particular the function built by \<open>recursiveMapper\<close> returns a scalar \<open>a\<close> as it is
  when the caller's handler abstains on it.
\<close>

theorem reduceInternal_first_present_wins:
  "(i < length pathFns \<and>
    (\<forall>j<i. fst ((pathFns ! j) current pa (after_absent (take j pathFns) current pa s)) = None) \<and>
    (pathFns ! i) current pa (after_absent (take i pathFns) current pa s) = (Some v, s')
      \<longrightarrow> reduceInternal pathFns current pa s = (v, s')) \<and>
   ((\<forall>j<length pathFns.
       fst ((pathFns ! j) current pa (after_absent (take j pathFns) current pa s)) = None)
      \<longrightarrow> reduceInternal pathFns current pa s = (current, after_absent pathFns current pa s)) \<and>
   (is_scalar a \<and> fst (pathFn a [] h) = None
      \<longrightarrow> recursiveMapper pathFn a h = (a, snd (pathFn a [] h)))"
proof (intro conjI impI)
  assume "i < length pathFns \<and>
    (\<forall>j<i. fst ((pathFns ! j) current pa (after_absent (take j pathFns) current pa s)) = None) \<and>
    (pathFns ! i) current pa (after_absent (take i pathFns) current pa s) = (Some v, s')"
  then show "reduceInternal pathFns current pa s = (v, s')"
    using reduceInternal_present[of i pathFns current pa s v s'] by blast
next
  assume "\<forall>j<length pathFns.
       fst ((pathFns ! j) current pa (after_absent (take j pathFns) current pa s)) = None"
  then show "reduceInternal pathFns current pa s = (current, after_absent pathFns current pa s)"
    by (rule reduceInternal_absent)
next
  assume "is_scalar a \<and> fst (pathFn a [] h) = None"
  then show "recursiveMapper pathFn a h = (a, snd (pathFn a [] h))"
    by (simp add: recursiveMapper_def recursiveMapper_visit_scalar)
qed

theorem reduceInternal_first_present_wins_witness:
  "(1::nat) < length [\<lambda>a p s. (None, s), \<lambda>a p s. (Some (JNum 1), s), \<lambda>a p (s::unit). (Some (JNum 2), s)] \<and>
   fst ((\<lambda>a p (s::unit). (None :: optional, s)) (JStr ''x'') [] ()) = None \<and>
   reduceInternal [\<lambda>a p s. (None, s), \<lambda>a p s. (Some (JNum 1), s), \<lambda>a p s. (Some (JNum 2), s)]
       (JStr ''x'') [] () = (JNum 1, ()) \<and>
   reduceInternal [\<lambda>a p s. (None, s), \<lambda>a p s. (None, s)] (JStr ''x'') [] () = (JStr ''x'', ()) \<and>
   is_scalar (JNum 9) \<and>
   recursiveMapper (\<lambda>a p s. (case a of JStr x \<Rightarrow> present (JStr (''!'' @ x)) | _ \<Rightarrow> empty_optional, s))
       (JNum 9) \<lparr>next_ref = 0\<rparr> = (JNum 9, \<lparr>next_ref = 0\<rparr>)"
  using reduceInternal_first_present_wins
      [of 1 "[\<lambda>a p s. (None, s), \<lambda>a p s. (Some (JNum 1), s), \<lambda>a p s. (Some (JNum 2), s)]"
          "JStr ''x''" "[]" "()" "JNum 1" "()" "JNum 9"
          "\<lambda>a p s. (case a of JStr x \<Rightarrow> present (JStr (''!'' @ x)) | _ \<Rightarrow> empty_optional, s)"
          "\<lparr>next_ref = 0\<rparr>"]
    reduceInternal_first_present_wins
      [of 0 "[\<lambda>a p s. (None, s), \<lambda>a p s. (None, s)]"
          "JStr ''x''" "[]" "()" "JNum 1" "()" "JNum 9"
          "\<lambda>a p s. (case a of JStr x \<Rightarrow> present (JStr (''!'' @ x)) | _ \<Rightarrow> empty_optional, s)"
          "\<lparr>next_ref = 0\<rparr>"]
  by (simp add: empty_optional_def)

section \<open>An override that is present prunes the subtree\<close>

lemma recursiveMapperReducer_visit_override:
  "optionalMapper current s = (Some v, s') \<Longrightarrow>
   recursiveMapperReducer_visit mapper reduceCallback reduceInitial optionalMapper current pa s
     = (v, s')"
  by (simp add: recursiveMapperReducer_visit.simps)

text \<open>
  C3. When the override of a fold built by \<open>recursiveMapperReducer\<close> is present at a
  node, its value and the state it leaves are the result for the whole subtree, at every
  path and whatever the leaf mapper, the combining function and the seed are: none of
  them is called, so nothing below the node is visited. With the override that is
  present with 1 exactly at an empty array, the leaf mapper constantly 0, addition and
  the seed 0, the fold of \<^verbatim>\<open>{a: {}, b: [[]], c: []}\<close> is 2.
\<close>

theorem recursiveMapperReducer_override_prunes:
  "(optionalMapper current s = (Some v, s') \<longrightarrow>
      recursiveMapperReducer_visit mapper reduceCallback reduceInitial optionalMapper current pa s
        = (v, s') \<and>
      recursiveMapperReducer mapper reduceCallback reduceInitial (Some optionalMapper) current s
        = (v, s')) \<and>
   countEmptyArrays
       (JObj r0 [(''a'', JObj r1 []), (''b'', JArr r2 [JArr r3 []]), (''c'', JArr r4 [])]) h
     = (JNum 2, h)"
proof (intro conjI impI)
  assume "optionalMapper current s = (Some v, s')"
  then show "recursiveMapperReducer_visit mapper reduceCallback reduceInitial optionalMapper
      current pa s = (v, s')"
    by (rule recursiveMapperReducer_visit_override)
next
  assume "optionalMapper current s = (Some v, s')"
  then show "recursiveMapperReducer mapper reduceCallback reduceInitial (Some optionalMapper)
      current s = (v, s')"
    by (simp add: recursiveMapperReducer_def recursiveMapperReducer_visit.simps)
next
  show "countEmptyArrays
       (JObj r0 [(''a'', JObj r1 []), (''b'', JArr r2 [JArr r3 []]), (''c'', JArr r4 [])]) h
     = (JNum 2, h)"
    by (simp add: countEmptyArrays_def recursiveMapperReducer_def
        recursiveMapperReducer_visit.simps arrReductionToRecursivePathFn_def objReductionToRecursivePathFn_def recordReducer_def
        object_keys_def own_property_def present_def empty_optional_def js_plus_def)
qed

text \<open>
  The witness: a fold whose leaf mapper, combining function and seed each add to a
  counter in the state. At the array \<^verbatim>\<open>[5, 6]\<close>, which the override claims, the counter
  stays 0.
\<close>

theorem recursiveMapperReducer_override_prunes_witness:
  "(\<lambda>a (n::nat). (case a of JArr r xs \<Rightarrow> Some (JStr ''array'') | _ \<Rightarrow> None, n))
       (JArr 0 [JNum 5, JNum 6]) 0 = (Some (JStr ''array''), 0) \<and>
   recursiveMapperReducer (\<lambda>a n. (a, Suc n)) (\<lambda>prev cur n. (prev, Suc n)) (\<lambda>n. (JNull, Suc n))
       (Some (\<lambda>a (n::nat). (case a of JArr r xs \<Rightarrow> Some (JStr ''array'') | _ \<Rightarrow> None, n)))
       (JArr 0 [JNum 5, JNum 6]) 0 = (JStr ''array'', 0)"
  using recursiveMapperReducer_override_prunes
      [of "\<lambda>a (n::nat). (case a of JArr r xs \<Rightarrow> Some (JStr ''array'') | _ \<Rightarrow> None, n)"
          "JArr 0 [JNum 5, JNum 6]" 0 "JStr ''array''" 0
          "\<lambda>a n. (a, Suc n)" "\<lambda>prev cur n. (prev, Suc n)" "\<lambda>n. (JNull, Suc n)" "[]"
          0 1 2 3 4 "()"]
  by simp

section \<open>A scan copies the containers and lists the promises\<close>

lemma extract_pathFn_promise [simp]:
  "extractPromises_pathFn (JPromise x) pa s =
     (Some (JPromise x), s\<lparr>promisePaths := promisePaths s @ [\<lparr>promise = JPromise x, path = pa\<rparr>]\<rparr>)"
  by (simp add: extractPromises_pathFn_def present_def)

lemma extract_pathFn_other [simp]:
  "\<forall>x. b \<noteq> JPromise x \<Longrightarrow> extractPromises_pathFn b pa s = (None, s)"
  by (cases b) (simp_all add: extractPromises_pathFn_def empty_optional_def)

lemma arr_copy_initial [simp]:
  "initial ARR_COPY_REDUCTION s = (JArr (next_ref s) [], s\<lparr>next_ref := Suc (next_ref s)\<rparr>)"
  by (simp add: ARR_COPY_REDUCTION_def)

lemma arr_copy_callback [simp]:
  "callback ARR_COPY_REDUCTION (JArr n acc) x i s = (JArr n (acc @ [x]), s)"
  by (simp add: ARR_COPY_REDUCTION_def)

lemma obj_copy_initial [simp]:
  "initial OBJ_COPY_REDUCTION s = (JObj (next_ref s) [], s\<lparr>next_ref := Suc (next_ref s)\<rparr>)"
  by (simp add: OBJ_COPY_REDUCTION_def)

lemma obj_copy_callback [simp]:
  "callback OBJ_COPY_REDUCTION (JObj n acc) x k s = (JObj n (js_set_property acc k x), s)"
  by (simp add: OBJ_COPY_REDUCTION_def)

lemma js_set_property_new [simp]:
  "k \<notin> fst ` set kvs \<Longrightarrow> k \<noteq> ''__proto__'' \<Longrightarrow> js_set_property kvs k v = kvs @ [(k, v)]"
  by (simp add: js_set_property_def)

lemma js_set_property_proto [simp]:
  "''__proto__'' \<notin> fst ` set kvs \<Longrightarrow> js_set_property kvs ''__proto__'' v = kvs"
  by (simp add: js_set_property_def)

lemma own_property_distinct:
  "distinct (map fst kvs) \<Longrightarrow> (k, v) \<in> set kvs \<Longrightarrow> own_property kvs k = v"
  by (simp add: own_property_def)

lemma array_reduce_scan:
  assumes IH: "\<And>x pa s. x \<in> set rs \<Longrightarrow> recurse x pa s = scan_result pa x s"
  shows "array_reduce
           (\<lambda>prev current index s1.
               case recurse current (pre @ [Index index]) s1 of
                 (x, s2) \<Rightarrow> callback ARR_COPY_REDUCTION prev x index s2)
           i rs (JArr n acc) s
         = (JArr n (acc @ fst (fresh_copy_list (next_ref s) rs)),
            \<lparr>next_ref = snd (fresh_copy_list (next_ref s) rs),
             promisePaths = promisePaths s @ discovered_list pre i rs\<rparr>)"
  using IH
proof (induction rs arbitrary: i acc s)
  case Nil
  then show ?case by simp
next
  case (Cons x xs)
  have x: "recurse x (pre @ [Index i]) s = scan_result (pre @ [Index i]) x s"
    using Cons.prems by simp
  have rest: "\<And>i acc s. array_reduce
           (\<lambda>prev current index s1.
               case recurse current (pre @ [Index index]) s1 of
                 (x, s2) \<Rightarrow> callback ARR_COPY_REDUCTION prev x index s2)
           i xs (JArr n acc) s
         = (JArr n (acc @ fst (fresh_copy_list (next_ref s) xs)),
            \<lparr>next_ref = snd (fresh_copy_list (next_ref s) xs),
             promisePaths = promisePaths s @ discovered_list pre i xs\<rparr>)"
    using Cons.IH Cons.prems by simp
  show ?case
    by (simp add: x scan_result_def rest split: prod.splits)
qed

lemma recordReducer_loop_scan:
  assumes IH: "\<And>k x pa s. (k, x) \<in> set todo \<Longrightarrow> recurse x pa s = scan_result pa x s"
    and "distinct (map fst kvs)" "set todo \<subseteq> set kvs"
    and "distinct (map fst acc @ map fst todo)"
    and "''__proto__'' \<notin> fst ` set todo"
  shows "recordReducer_loop
           (\<lambda>prev current key s1.
              case recurse current (pre @ [Key key]) s1 of
                (reducedItem, s2) \<Rightarrow> callback OBJ_COPY_REDUCTION prev reducedItem key s2)
           kvs (map fst todo) (JObj n acc) s
         = (JObj n (acc @ fst (fresh_copy_fields (next_ref s) todo)),
            \<lparr>next_ref = snd (fresh_copy_fields (next_ref s) todo),
             promisePaths = promisePaths s @ discovered_fields pre todo\<rparr>)"
  using assms
proof (induction todo arbitrary: acc s)
  case Nil
  then show ?case by simp
next
  case (Cons kv todo)
  obtain k x where kv: "kv = (k, x)" by (cases kv)
  have own: "own_property kvs k = x"
    using Cons.prems(2,3) kv by (auto intro: own_property_distinct)
  have x: "recurse x (pre @ [Key k]) s = scan_result (pre @ [Key k]) x s"
    using Cons.prems(1)[of k x] kv by simp
  have knew: "k \<notin> fst ` set acc" using Cons.prems(4) kv by auto
  have kord: "k \<noteq> ''__proto__''" using Cons.prems(5) kv by auto
  have rest: "recordReducer_loop
           (\<lambda>prev current key s1.
              case recurse current (pre @ [Key key]) s1 of
                (reducedItem, s2) \<Rightarrow> callback OBJ_COPY_REDUCTION prev reducedItem key s2)
           kvs (map fst todo) (JObj n acc') s
         = (JObj n (acc' @ fst (fresh_copy_fields (next_ref s) todo)),
            \<lparr>next_ref = snd (fresh_copy_fields (next_ref s) todo),
             promisePaths = promisePaths s @ discovered_fields pre todo\<rparr>)"
    if "distinct (map fst acc' @ map fst todo)" for acc' s
  proof (rule Cons.IH)
    show "\<And>k x pa s. (k, x) \<in> set todo \<Longrightarrow> recurse x pa s = scan_result pa x s"
      using Cons.prems(1) by (meson list.set_intros(2))
    show "distinct (map fst kvs)" by (rule Cons.prems(2))
    show "set todo \<subseteq> set kvs" using Cons.prems(3) by simp
    show "distinct (map fst acc' @ map fst todo)" by (rule that)
    show "''__proto__'' \<notin> fst ` set todo" using Cons.prems(5) by simp
  qed
  have d: "distinct (map fst (acc @ [(k, y)]) @ map fst todo)" for y
    using Cons.prems(4) kv by auto
  show ?case
    by (simp add: kv own x scan_result_def knew kord rest[OF d] split: prod.splits)
qed

lemma ordinary_keys_elem: "ordinary_keys (JArr r xs) \<Longrightarrow> x \<in> set xs \<Longrightarrow> ordinary_keys x"
  by (simp add: list_all_iff)

lemma ordinary_keys_field: "ordinary_keys (JObj r kvs) \<Longrightarrow> (k, x) \<in> set kvs \<Longrightarrow> ordinary_keys x"
  by (auto simp add: list_all_iff)

lemma visit_scan:
  "ordinary_keys v \<Longrightarrow> recursiveMapper_visit extractPromises_pathFn v pre s = scan_result pre v s"
proof (induction v arbitrary: pre s)
  case (JArr r xs)
  have IH: "\<And>x pa s. x \<in> set xs \<Longrightarrow>
      recursiveMapper_visit extractPromises_pathFn x pa s = scan_result pa x s"
    using JArr.IH JArr.prems ordinary_keys_elem by blast
  show ?case
    apply (subst recursiveMapper_visit.simps)
    apply (simp add: arrReductionToRecursivePathFn_def array_reduce_scan[OF IH, where acc="[]", simplified])
    apply (simp add: scan_result_def split: prod.splits)
    done
next
  case (JObj r kvs)
  have IH: "\<And>k x pa s. (k, x) \<in> set kvs \<Longrightarrow>
      recursiveMapper_visit extractPromises_pathFn x pa s = scan_result pa x s"
    using JObj.IH JObj.prems ordinary_keys_field by (metis snds.intros snd_conv)
  have d: "distinct (map fst kvs)" using JObj.prems by simp
  have np: "''__proto__'' \<notin> fst ` set kvs" using JObj.prems by simp
  have rr: "recordReducer_loop
           (\<lambda>prev current key s1.
              case recursiveMapper_visit extractPromises_pathFn current (pre @ [Key key]) s1 of
                (reducedItem, s2) \<Rightarrow> callback OBJ_COPY_REDUCTION prev reducedItem key s2)
           kvs (map fst kvs) (JObj n []) s0
         = (JObj n ([] @ fst (fresh_copy_fields (next_ref s0) kvs)),
            \<lparr>next_ref = snd (fresh_copy_fields (next_ref s0) kvs),
             promisePaths = promisePaths s0 @ discovered_fields pre kvs\<rparr>)"
    for n s0
    by (rule recordReducer_loop_scan[OF IH d]) (use d np in auto)
  show ?case
    apply (subst recursiveMapper_visit.simps)
    apply (simp add: objReductionToRecursivePathFn_def recordReducer_def object_keys_def rr)
    apply (simp add: scan_result_def split: prod.splits)
    done
qed (simp_all add: recursiveMapper_visit.simps scan_result_def)

section \<open>Copies, passes and the materialized value\<close>

lemma fresh_copy_erase:
  "erase_refs (fst (fresh_copy n v)) = erase_refs v"
  "map erase_refs (fst (fresh_copy_list n xs)) = map erase_refs xs"
  "map (map_prod (\<lambda>k. k) erase_refs) (fst (fresh_copy_fields n kvs)) = map (map_prod (\<lambda>k. k) erase_refs) kvs"
  by (induction n v and n xs and n kvs rule: fresh_copy_fresh_copy_list_fresh_copy_fields.induct)
    (auto split: prod.splits)

lemma fresh_copy_discovered:
  "discovered pre (fst (fresh_copy n v)) = discovered pre v"
  "discovered_list pre i (fst (fresh_copy_list n xs)) = discovered_list pre i xs"
  "discovered_fields pre (fst (fresh_copy_fields n kvs)) = discovered_fields pre kvs"
  by (induction n v and n xs and n kvs arbitrary: pre and pre i and pre
      rule: fresh_copy_fresh_copy_list_fresh_copy_fields.induct)
    (auto split: prod.splits)

lemma ordinary_keys_erase: "ordinary_keys (erase_refs v) = ordinary_keys v"
  by (induction v) (auto simp: list_all_iff comp_def pred_prod_beta)

lemma fresh_copy_wf: "ordinary_keys (fst (fresh_copy n v)) = ordinary_keys v"
  by (metis fresh_copy_erase(1) ordinary_keys_erase)

lemma erase_resolve_pass: "erase_refs (resolve_pass v) = resolve_pass (erase_refs v)"
  by (induction v) (auto)

lemma erase_materialized: "erase_refs (materialized v) = materialized (erase_refs v)"
  by (induction v) (auto)

lemma erase_idem [simp]: "erase_refs (erase_refs v) = erase_refs v"
  by (induction v) auto

lemma materialized_resolve_pass: "materialized (resolve_pass v) = materialized v"
  by (induction v) auto

lemma wf_resolve_pass: "ordinary_keys v \<Longrightarrow> ordinary_keys (resolve_pass v)"
  by (induction v) (auto simp: list_all_iff comp_def pred_prod_beta)

lemma fold_max_zero: "fold max ns (m::nat) = 0 \<longleftrightarrow> m = 0 \<and> (\<forall>n\<in>set ns. n = 0)"
  by (induction ns arbitrary: m) auto

lemma fold_max_pred:
  "fold max (map (\<lambda>x. f x - 1) xs) (m - 1) = fold max (map f xs) m - (1::nat)"
proof (induction xs arbitrary: m)
  case Nil
  then show ?case by simp
next
  case (Cons x xs)
  have "max (f x - 1) (m - 1) = max (f x) m - 1" by simp
  then show ?case using Cons.IH[of "max (f x) m"] by simp
qed

lemma passes_needed_erase: "passes_needed (erase_refs v) = passes_needed v"
proof (induction v)
  case (JArr r xs)
  then have eq: "map (\<lambda>x. passes_needed (erase_refs x)) xs = map passes_needed xs"
    by (intro map_cong) auto
  show ?case by (simp add: comp_def eq)
next
  case (JObj r kvs)
  then have eq: "map (\<lambda>kv. passes_needed (erase_refs (snd kv))) kvs = map (\<lambda>kv. passes_needed (snd kv)) kvs"
    by (intro map_cong) (auto simp: snds.simps)
  show ?case by (simp add: comp_def eq)
qed simp_all

lemma no_pass_materialized: "passes_needed v = 0 \<Longrightarrow> materialized v = v"
proof (induction v)
  case (JArr r xs)
  then show ?case by (auto simp: fold_max_zero map_idI)
next
  case (JObj r kvs)
  then have eq: "map (map_prod (\<lambda>k. k) materialized) kvs = map (\<lambda>kv. kv) kvs"
    by (intro map_cong) (auto simp: fold_max_zero snds.simps)
  show ?case by (simp add: eq)
qed simp_all

lemma discovered_nil:
  "(discovered pre v = []) = (passes_needed v = 0)"
  "(discovered_list pre i xs = []) = (\<forall>x\<in>set xs. passes_needed x = 0)"
  "(discovered_fields pre kvs = []) = (\<forall>kv\<in>set kvs. passes_needed (snd kv) = 0)"
  by (induction pre v and pre i xs and pre kvs rule: discovered_discovered_list_discovered_fields.induct)
    (auto simp: fold_max_zero)

lemma passes_needed_resolve_pass: "passes_needed (resolve_pass v) = passes_needed v - 1"
proof (induction v)
  case (JArr r xs)
  then have eq: "map (\<lambda>x. passes_needed (resolve_pass x)) xs = map (\<lambda>x. passes_needed x - 1) xs"
    by (intro map_cong) auto
  show ?case using fold_max_pred[of passes_needed xs 0] by (simp add: comp_def eq)
next
  case (JObj r kvs)
  then have eq: "map (\<lambda>kv. passes_needed (resolve_pass (snd kv))) kvs
      = map (\<lambda>kv. passes_needed (snd kv) - 1) kvs"
    by (intro map_cong) (auto simp: snds.simps)
  show ?case using fold_max_pred[of "\<lambda>kv. passes_needed (snd kv)" kvs 0] by (simp add: comp_def eq)
qed simp_all

section \<open>The copy made when no handler claims a node\<close>

lemma array_reduce_copy:
  assumes IH: "\<And>x pa s. x \<in> set rs \<Longrightarrow> recurse x pa s = copy_result x s"
  shows "array_reduce
           (\<lambda>prev current index s1.
               case recurse current (pre @ [Index index]) s1 of
                 (x, s2) \<Rightarrow> callback ARR_COPY_REDUCTION prev x index s2)
           i rs (JArr n acc) s
         = (JArr n (acc @ fst (fresh_copy_list (next_ref s) rs)),
            s\<lparr>next_ref := snd (fresh_copy_list (next_ref s) rs)\<rparr>)"
  using IH
proof (induction rs arbitrary: i acc s)
  case Nil
  then show ?case by simp
next
  case (Cons x xs)
  have x: "recurse x (pre @ [Index i]) s = copy_result x s"
    using Cons.prems by simp
  have rest: "\<And>i acc s. array_reduce
           (\<lambda>prev current index s1.
               case recurse current (pre @ [Index index]) s1 of
                 (x, s2) \<Rightarrow> callback ARR_COPY_REDUCTION prev x index s2)
           i xs (JArr n acc) s
         = (JArr n (acc @ fst (fresh_copy_list (next_ref s) xs)),
            s\<lparr>next_ref := snd (fresh_copy_list (next_ref s) xs)\<rparr>)"
    using Cons.IH Cons.prems by simp
  show ?case
    by (simp add: x copy_result_def rest split: prod.splits)
qed

lemma recordReducer_loop_copy:
  assumes IH: "\<And>k x pa s. (k, x) \<in> set todo \<Longrightarrow> recurse x pa s = copy_result x s"
    and "distinct (map fst kvs)" "set todo \<subseteq> set kvs"
    and "distinct (map fst acc @ map fst todo)"
    and "''__proto__'' \<notin> fst ` set todo"
  shows "recordReducer_loop
           (\<lambda>prev current key s1.
              case recurse current (pre @ [Key key]) s1 of
                (reducedItem, s2) \<Rightarrow> callback OBJ_COPY_REDUCTION prev reducedItem key s2)
           kvs (map fst todo) (JObj n acc) s
         = (JObj n (acc @ fst (fresh_copy_fields (next_ref s) todo)),
            s\<lparr>next_ref := snd (fresh_copy_fields (next_ref s) todo)\<rparr>)"
  using assms
proof (induction todo arbitrary: acc s)
  case Nil
  then show ?case by simp
next
  case (Cons kv todo)
  obtain k x where kv: "kv = (k, x)" by (cases kv)
  have own: "own_property kvs k = x"
    using Cons.prems(2,3) kv by (auto intro: own_property_distinct)
  have x: "recurse x (pre @ [Key k]) s = copy_result x s"
    using Cons.prems(1)[of k x] kv by simp
  have knew: "k \<notin> fst ` set acc" using Cons.prems(4) kv by auto
  have kord: "k \<noteq> ''__proto__''" using Cons.prems(5) kv by auto
  have rest: "recordReducer_loop
           (\<lambda>prev current key s1.
              case recurse current (pre @ [Key key]) s1 of
                (reducedItem, s2) \<Rightarrow> callback OBJ_COPY_REDUCTION prev reducedItem key s2)
           kvs (map fst todo) (JObj n acc') s
         = (JObj n (acc' @ fst (fresh_copy_fields (next_ref s) todo)),
            s\<lparr>next_ref := snd (fresh_copy_fields (next_ref s) todo)\<rparr>)"
    if "distinct (map fst acc' @ map fst todo)" for acc' s
  proof (rule Cons.IH)
    show "\<And>k x pa s. (k, x) \<in> set todo \<Longrightarrow> recurse x pa s = copy_result x s"
      using Cons.prems(1) by (meson list.set_intros(2))
    show "distinct (map fst kvs)" by (rule Cons.prems(2))
    show "set todo \<subseteq> set kvs" using Cons.prems(3) by simp
    show "distinct (map fst acc' @ map fst todo)" by (rule that)
    show "''__proto__'' \<notin> fst ` set todo" using Cons.prems(5) by simp
  qed
  have d: "distinct (map fst (acc @ [(k, y)]) @ map fst todo)" for y
    using Cons.prems(4) kv by auto
  show ?case
    by (simp add: kv own x copy_result_def knew kord rest[OF d] split: prod.splits)
qed

lemma visit_copy:
  "ordinary_keys v \<Longrightarrow> promise_free v \<Longrightarrow>
   recursiveMapper_visit always_absent v pre (s :: 'a heap_scheme) = copy_result v s"
proof (induction v arbitrary: pre s)
  case (JArr r xs)
  have IH: "\<And>x pa (s :: 'a heap_scheme). x \<in> set xs \<Longrightarrow>
      recursiveMapper_visit always_absent x pa s = copy_result x s"
    using JArr.IH JArr.prems by (simp add: list_all_iff)
  have ar: "array_reduce
           (\<lambda>prev current index s1.
               case recursiveMapper_visit always_absent current (pre @ [Index index]) s1 of
                 (x, s2) \<Rightarrow> callback ARR_COPY_REDUCTION prev x index s2)
           0 xs (JArr n []) s0
         = (JArr n ([] @ fst (fresh_copy_list (next_ref s0) xs)),
            s0\<lparr>next_ref := snd (fresh_copy_list (next_ref s0) xs)\<rparr>)"
    for n and s0 :: "'a heap_scheme"
    by (rule array_reduce_copy[OF IH])
  show ?case
    by (subst recursiveMapper_visit.simps)
      (simp add: always_absent_def empty_optional_def arrReductionToRecursivePathFn_def ar
        copy_result_def split: prod.splits)
next
  case (JObj r kvs)
  have IH: "\<And>k x pa (s :: 'a heap_scheme). (k, x) \<in> set kvs \<Longrightarrow>
      recursiveMapper_visit always_absent x pa s = copy_result x s"
    using JObj.IH JObj.prems by (fastforce simp: list_all_iff snds.simps)
  have d: "distinct (map fst kvs)" using JObj.prems by simp
  have np: "''__proto__'' \<notin> fst ` set kvs" using JObj.prems by simp
  have rr: "recordReducer_loop
           (\<lambda>prev current key s1.
              case recursiveMapper_visit always_absent current (pre @ [Key key]) s1 of
                (reducedItem, s2) \<Rightarrow> callback OBJ_COPY_REDUCTION prev reducedItem key s2)
           kvs (map fst kvs) (JObj n []) s0
         = (JObj n ([] @ fst (fresh_copy_fields (next_ref s0) kvs)),
            s0\<lparr>next_ref := snd (fresh_copy_fields (next_ref s0) kvs)\<rparr>)"
    for n and s0 :: "'a heap_scheme"
    by (rule recordReducer_loop_copy[OF IH d]) (use d np in auto)
  show ?case
    by (subst recursiveMapper_visit.simps)
      (simp add: always_absent_def empty_optional_def objReductionToRecursivePathFn_def
        recordReducer_def object_keys_def rr copy_result_def split: prod.splits)
qed (simp_all add: recursiveMapper_visit.simps copy_result_def always_absent_def empty_optional_def)

lemma upt_join: "n \<le> m \<Longrightarrow> m \<le> k \<Longrightarrow> [n..<m] @ [m..<k] = [n..<k]"
  by (metis le_Suc_ex upt_add_eq_append)

lemma fresh_copy_refs:
  "promise_free v \<Longrightarrow>
     n \<le> snd (fresh_copy n v) \<and> refs_of (fst (fresh_copy n v)) = [n..<snd (fresh_copy n v)]"
  "list_all promise_free xs \<Longrightarrow>
     n \<le> snd (fresh_copy_list n xs) \<and>
     concat (map refs_of (fst (fresh_copy_list n xs))) = [n..<snd (fresh_copy_list n xs)]"
  "list_all (pred_prod (\<lambda>k. True) promise_free) kvs \<Longrightarrow>
     n \<le> snd (fresh_copy_fields n kvs) \<and>
     concat (map (\<lambda>kv. refs_of (snd kv)) (fst (fresh_copy_fields n kvs)))
       = [n..<snd (fresh_copy_fields n kvs)]"
proof (induction n v and n xs and n kvs rule: fresh_copy_fresh_copy_list_fresh_copy_fields.induct)
  case (1 n r xs)
  then show ?case by (auto split: prod.splits simp: upt_conv_Cons)
next
  case (2 n r kvs)
  then show ?case by (auto split: prod.splits simp: upt_conv_Cons comp_def)
next
  case (10 n x xs)
  obtain y n1 where y: "fresh_copy n x = (y, n1)" by (cases "fresh_copy n x")
  obtain ys n2 where ys: "fresh_copy_list n1 xs = (ys, n2)" by (cases "fresh_copy_list n1 xs")
  have pf: "promise_free x" "list_all promise_free xs" using 10(3) by simp_all
  from 10(1)[OF pf(1)] y have a: "n \<le> n1" "refs_of y = [n..<n1]" by auto
  from 10(2)[OF y[symmetric] pf(2)] ys
  have b: "n1 \<le> n2" "concat (map refs_of ys) = [n1..<n2]" by auto
  show ?case using a b y ys by (simp add: upt_join)
next
  case (12 n kv kvs)
  obtain y n1 where y: "fresh_copy n (snd kv) = (y, n1)" by (cases "fresh_copy n (snd kv)")
  obtain ys n2 where ys: "fresh_copy_fields n1 kvs = (ys, n2)" by (cases "fresh_copy_fields n1 kvs")
  have pf: "promise_free (snd kv)" "list_all (pred_prod (\<lambda>k. True) promise_free) kvs"
    using 12(3) by (cases kv; simp)+
  from 12(1)[OF pf(1)] y have a: "n \<le> n1" "refs_of y = [n..<n1]" by auto
  from 12(2)[OF y[symmetric] pf(2)] ys
  have b: "n1 \<le> n2" "concat (map (\<lambda>kv. refs_of (snd kv)) ys) = [n1..<n2]" by auto
  show ?case using a b y ys by (simp add: upt_join)
qed simp_all


section \<open>The structural copy\<close>

lemma deep_equal_shape:
  "deep_equal (JArr r xs) (JArr r' ys) \<Longrightarrow>
     length xs = length ys \<and> (\<forall>i<length xs. deep_equal (xs ! i) (ys ! i))"
  "deep_equal (JObj r kvs) (JObj r' kvs') \<Longrightarrow> map fst kvs = map fst kvs'"
proof -
  assume "deep_equal (JArr r xs) (JArr r' ys)"
  then have m: "map erase_refs xs = map erase_refs ys" by (simp add: deep_equal_def)
  then have l: "length xs = length ys" by (rule map_eq_imp_length_eq)
  moreover have "deep_equal (xs ! i) (ys ! i)" if "i < length xs" for i
    using that l nth_map[of i xs erase_refs] nth_map[of i ys erase_refs] m
    by (simp add: deep_equal_def)
  ultimately show "length xs = length ys \<and> (\<forall>i<length xs. deep_equal (xs ! i) (ys ! i))"
    by blast
next
  assume "deep_equal (JObj r kvs) (JObj r' kvs')"
  then have "map (map_prod (\<lambda>k. k) erase_refs) kvs = map (map_prod (\<lambda>k. k) erase_refs) kvs'"
    by (simp add: deep_equal_def)
  then have "map fst (map (map_prod (\<lambda>k. k) erase_refs) kvs)
      = map fst (map (map_prod (\<lambda>k. k) erase_refs) kvs')"
    by simp
  then show "map fst kvs = map fst kvs'" by (simp add: comp_def)
qed

text \<open>
  The copy of a value with ordinary keys. Let \<open>v\<close> be built from arrays, objects and
  scalars only (no promise), with ordinary keys, and let the heap's next free reference be
  above every reference of \<open>v\<close>. The function built by \<open>recursiveMapper\<close> with the
  handler that always abstains returns a value that is deep-equal to \<open>v\<close> (so every
  array keeps its length and the order of its elements and every object its keys, see
  \<open>deep_equal_shape\<close>), and every container of the result is newly allocated: its
  references are distinct, lie between the heap's next free reference before the call
  and after it, and none of them is a reference of \<open>v\<close>.
\<close>

theorem recursiveMapper_absent_copies:
  "ordinary_keys v \<and> promise_free v \<and> (\<forall>r\<in>set (refs_of v). r < next_ref s) \<longrightarrow>
     (\<exists>c s'. recursiveMapper always_absent v s = (c, s') \<and>
        deep_equal c v \<and>
        distinct (refs_of c) \<and>
        (\<forall>r\<in>set (refs_of c). next_ref s \<le> r \<and> r < next_ref s') \<and>
        set (refs_of c) \<inter> set (refs_of v) = {})"
proof (intro impI)
  assume a: "ordinary_keys v \<and> promise_free v \<and> (\<forall>r\<in>set (refs_of v). r < next_ref s)"
  let ?c = "fst (fresh_copy (next_ref s) v)"
  let ?n' = "snd (fresh_copy (next_ref s) v)"
  have run: "recursiveMapper always_absent v s = (?c, s\<lparr>next_ref := ?n'\<rparr>)"
    using a by (simp add: recursiveMapper_def visit_copy copy_result_def)
  have refs: "refs_of ?c = [next_ref s..<?n']"
    using a fresh_copy_refs(1)[of v "next_ref s"] by simp
  have "deep_equal ?c v" by (simp add: deep_equal_def fresh_copy_erase)
  moreover have "distinct (refs_of ?c)" by (simp add: refs)
  moreover have "\<forall>r\<in>set (refs_of ?c). next_ref s \<le> r \<and> r < next_ref (s\<lparr>next_ref := ?n'\<rparr>)"
    by (simp add: refs)
  moreover have "set (refs_of ?c) \<inter> set (refs_of v) = {}"
    using a by (auto simp: refs)
  ultimately show "\<exists>c s'. recursiveMapper always_absent v s = (c, s') \<and>
        deep_equal c v \<and>
        distinct (refs_of c) \<and>
        (\<forall>r\<in>set (refs_of c). next_ref s \<le> r \<and> r < next_ref s') \<and>
        set (refs_of c) \<inter> set (refs_of v) = {}"
    using run by blast
qed

theorem recursiveMapper_absent_copies_witness:
  "ordinary_keys (JObj 0 [(''a'', JArr 1 [JNum 1, JObj 2 []]), (''b'', JStr ''x'')]) \<and>
   promise_free (JObj 0 [(''a'', JArr 1 [JNum 1, JObj 2 []]), (''b'', JStr ''x'')]) \<and>
   refs_of (JObj 0 [(''a'', JArr 1 [JNum 1, JObj 2 []]), (''b'', JStr ''x'')]) = [0, 1, 2] \<and>
   recursiveMapper always_absent
       (JObj 0 [(''a'', JArr 1 [JNum 1, JObj 2 []]), (''b'', JStr ''x'')]) \<lparr>next_ref = 3\<rparr>
     = (JObj 3 [(''a'', JArr 4 [JNum 1, JObj 5 []]), (''b'', JStr ''x'')], \<lparr>next_ref = 6\<rparr>) \<and>
   deep_equal (JObj 3 [(''a'', JArr 4 [JNum 1, JObj 5 []]), (''b'', JStr ''x'')])
     (JObj 0 [(''a'', JArr 1 [JNum 1, JObj 2 []]), (''b'', JStr ''x'')]) \<and>
   refs_of (JObj 3 [(''a'', JArr 4 [JNum 1, JObj 5 []]), (''b'', JStr ''x'')]) = [3, 4, 5]"
  using recursiveMapper_absent_copies
      [of "JObj 0 [(''a'', JArr 1 [JNum 1, JObj 2 []]), (''b'', JStr ''x'')]" "\<lparr>next_ref = 3\<rparr>"]
  by (simp add: recursiveMapper_def visit_copy copy_result_def deep_equal_def)

text \<open>
  C2. The copy is deep-equal to the input for every value built from arrays and objects:
  this does not hold of the code at an object that has a property named
  \<^verbatim>\<open>__proto__\<close> (as \<^verbatim>\<open>JSON.parse('{"__proto__": 1}')\<close> has). The copy of that object
  has no property: \<^verbatim>\<open>prev[key] = current\<close> of the copy reduction creates none for
  this key. With another property beside it, the copy keeps the other property only.
\<close>

theorem recursiveMapper_absent_drops_proto_key:
  "promise_free (JObj 0 [(''__proto__'', JNum 1)]) \<and>
   recursiveMapper always_absent (JObj 0 [(''__proto__'', JNum 1)]) \<lparr>next_ref = 1\<rparr>
     = (JObj 1 [], \<lparr>next_ref = 2\<rparr>) \<and>
   \<not> deep_equal (JObj 1 []) (JObj 0 [(''__proto__'', JNum 1)]) \<and>
   recursiveMapper always_absent
       (JObj 0 [(''a'', JArr 1 [JNum 7]), (''__proto__'', JNum 1)]) \<lparr>next_ref = 2\<rparr>
     = (JObj 2 [(''a'', JArr 3 [JNum 7])], \<lparr>next_ref = 4\<rparr>) \<and>
   \<not> deep_equal (JObj 2 [(''a'', JArr 3 [JNum 7])])
         (JObj 0 [(''a'', JArr 1 [JNum 7]), (''__proto__'', JNum 1)])"
  by (simp add: recursiveMapper_def recursiveMapper_visit.simps always_absent_def
      empty_optional_def present_def objReductionToRecursivePathFn_def
      arrReductionToRecursivePathFn_def recordReducer_def object_keys_def own_property_def
      js_set_property_def deep_equal_def)
section \<open>Splicing a resolved value into the working structure\<close>

lemma splice_single: "splice_at t [k] x = js_assign t k x"
  by (simp add: splice_at_def recordLookup_default_def recordLookup_def last_key_def
      split: sum.splits)

lemma splice_descend:
  assumes "q \<noteq> []" "\<not> is_nullish t" "js_get t k = Inr child"
  shows "splice_at t (k # q) x =
     (case recordLookup_default (butlast q) child of
        Inl e \<Rightarrow> Inl e
      | Inr res \<Rightarrow>
          (case js_assign (value res) (last_key q) x of
             Inl e \<Rightarrow> Inl e
           | Inr parent \<Rightarrow> Inr (replace_at t (k # resolvedPath res) parent)))"
proof -
  have lk: "last_key (k # q) = last_key q" using assms(1) by (simp add: last_key_def)
  have bl: "butlast (k # q) = k # butlast q" using assms(1) by simp
  show ?thesis
    unfolding splice_at_def Let_def lk bl recordLookup_default_def
    by (cases "recordLookup (butlast q) js_get child")
      (simp_all add: recordLookup_advance[OF assms(2)] assms(3) split: sum.splits)
qed

lemma splice_array_descend:
  assumes "q \<noteq> []" "i < length ys"
  shows "splice_at (JArr r ys) (Index i # q) x =
     (case splice_at (ys ! i) q x of
        Inl e \<Rightarrow> Inl e
      | Inr t \<Rightarrow> Inr (JArr r (ys[i := t])))"
proof -
  have g: "js_get (JArr r ys) (Index i) = Inr (ys ! i)"
    using assms(2) by (simp add: js_get_def nth_or_undefined_def)
  show ?thesis
    by (subst splice_descend[OF assms(1) _ g])
      (auto simp: is_nullish_def splice_at_def assms(2) split: sum.splits)
qed

lemma replace_field:
  "distinct (map fst kvs) \<Longrightarrow> (k, v) \<in> set kvs \<Longrightarrow>
   map (\<lambda>(k', v'). if k' = k then (k', f v') else (k', v')) kvs
     = map (\<lambda>(k', v'). if k' = k then (k', f v) else (k', v')) kvs"
  by (rule map_cong) (auto dest: eq_key_imp_eq_value)

lemma splice_object_descend:
  assumes "q \<noteq> []" "distinct (map fst kvs)" "(k, v) \<in> set kvs"
  shows "splice_at (JObj r kvs) (Key k # q) x =
     (case splice_at v q x of
        Inl e \<Rightarrow> Inl e
      | Inr t \<Rightarrow> Inr (JObj r (map (\<lambda>(k', v'). if k' = k then (k', t) else (k', v')) kvs)))"
proof -
  have own: "own_property kvs k = v"
    using assms(2,3) by (simp add: own_property_def)
  have g: "js_get (JObj r kvs) (Key k) = Inr v"
    by (simp add: js_get_def key_of_step_def own)
  show ?thesis
    by (subst splice_descend[OF assms(1) _ g])
      (auto simp: is_nullish_def splice_at_def key_of_step_def
        replace_field[OF assms(2,3), of "\<lambda>v. replace_at v _ _"] split: sum.splits)
qed

lemma resolved_at_list_length [simp]: "length (resolved_at_list S pre i xs) = length xs"
  by (induction xs arbitrary: i) simp_all

lemma resolved_at_list_nth:
  "j < length xs \<Longrightarrow>
   resolved_at_list S pre i xs ! j = resolved_at S (pre @ [Index (i + j)]) (xs ! j)"
proof (induction xs arbitrary: i j)
  case Nil
  then show ?case by simp
next
  case (Cons x xs)
  then show ?case by (cases j) simp_all
qed

lemma discovered_list_set:
  "set (discovered_list pre i xs) =
     (\<Union>j<length xs. set (discovered (pre @ [Index (i + j)]) (xs ! j)))"
proof (induction xs arbitrary: i)
  case Nil
  then show ?case by simp
next
  case (Cons x xs)
  have "(\<Union>j<Suc (length xs). set (discovered (pre @ [Index (i + j)]) ((x # xs) ! j)))
      = set (discovered (pre @ [Index i]) x) \<union>
        (\<Union>j<length xs. set (discovered (pre @ [Index (Suc i + j)]) (xs ! j)))"
    by (auto simp: lessThan_Suc_eq_insert_0 image_iff)
  then show ?case by (simp add: Cons.IH)
qed

lemma resolved_at_fields_map:
  "resolved_at_fields S pre kvs =
     map (\<lambda>kv. (fst kv, resolved_at S (pre @ [Key (fst kv)]) (snd kv))) kvs"
  by (induction kvs) simp_all

lemma discovered_fields_set:
  "set (discovered_fields pre kvs) =
     (\<Union>kv\<in>set kvs. set (discovered (pre @ [Key (fst kv)]) (snd kv)))"
  by (induction kvs) simp_all

text \<open>A discovered promise is the node itself, or lies strictly below it.\<close>

lemma discovered_below:
  "e \<in> set (discovered pre v) \<Longrightarrow>
   (\<exists>x. v = JPromise x \<and> e = \<lparr>promise = v, path = pre\<rparr>) \<or>
   (\<exists>k q. path e = pre @ k # q)"
proof (induction v arbitrary: pre e)
  case (JArr r xs)
  then obtain j where j: "j < length xs" "e \<in> set (discovered (pre @ [Index j]) (xs ! j))"
    by (auto simp: discovered_list_set)
  from JArr.IH[OF nth_mem[OF j(1)] j(2)] show ?case by auto
next
  case (JObj r kvs)
  then obtain kv where kv: "kv \<in> set kvs" "e \<in> set (discovered (pre @ [Key (fst kv)]) (snd kv))"
    by (auto simp: discovered_fields_set)
  have "snd kv \<in> Basic_BNFs.snds kv" by (cases kv) simp
  from JObj.IH[OF kv(1) this kv(2)] show ?case by auto
qed simp_all

lemma discovered_prefix:
  "e \<in> set (discovered pre v) \<Longrightarrow> \<exists>q. path e = pre @ q"
  using discovered_below by fastforce

text \<open>Only the membership of the discovered paths matters.\<close>

lemma resolved_at_cong:
  "(\<And>e. e \<in> set (discovered pre v) \<Longrightarrow> (path e \<in> S) = (path e \<in> S')) \<Longrightarrow>
   resolved_at S pre v = resolved_at S' pre v"
proof (induction v arbitrary: pre)
  case (JArr r xs)
  have "resolved_at_list S pre 0 xs = resolved_at_list S' pre 0 xs"
  proof (rule nth_equalityI)
    show "length (resolved_at_list S pre 0 xs) = length (resolved_at_list S' pre 0 xs)" by simp
    fix j assume "j < length (resolved_at_list S pre 0 xs)"
    then have j: "j < length xs" by simp
    have "resolved_at S (pre @ [Index j]) (xs ! j) = resolved_at S' (pre @ [Index j]) (xs ! j)"
    proof (rule JArr.IH[OF nth_mem[OF j]])
      fix e assume "e \<in> set (discovered (pre @ [Index j]) (xs ! j))"
      then have "e \<in> set (discovered pre (JArr r xs))"
        using j by (auto simp: discovered_list_set)
      then show "(path e \<in> S) = (path e \<in> S')" by (rule JArr.prems)
    qed
    then show "resolved_at_list S pre 0 xs ! j = resolved_at_list S' pre 0 xs ! j"
      using j by (simp add: resolved_at_list_nth)
  qed
  then show ?case by simp
next
  case (JObj r kvs)
  have "resolved_at S (pre @ [Key (fst kv)]) (snd kv) = resolved_at S' (pre @ [Key (fst kv)]) (snd kv)"
    if "kv \<in> set kvs" for kv
  proof (rule JObj.IH[OF that])
    show "snd kv \<in> Basic_BNFs.snds kv" by (cases kv) simp
    fix e assume "e \<in> set (discovered (pre @ [Key (fst kv)]) (snd kv))"
    then have "e \<in> set (discovered pre (JObj r kvs))"
      using that by (auto simp: discovered_fields_set)
    then show "(path e \<in> S) = (path e \<in> S')" by (rule JObj.prems)
  qed
  then show ?case by (simp add: resolved_at_fields_map)
qed simp_all

lemma resolved_at_insert_other:
  "p \<notin> path ` set (discovered pre v) \<Longrightarrow> resolved_at (insert p S) pre v = resolved_at S pre v"
  by (rule resolved_at_cong) auto

lemma resolved_at_none:
  "(\<And>e. e \<in> set (discovered pre v) \<Longrightarrow> path e \<notin> S) \<Longrightarrow> resolved_at S pre v = v"
proof (induction v arbitrary: pre)
  case (JArr r xs)
  have "resolved_at_list S pre 0 xs = xs"
  proof (rule nth_equalityI)
    show "length (resolved_at_list S pre 0 xs) = length xs" by simp
    fix j assume "j < length (resolved_at_list S pre 0 xs)"
    then have j: "j < length xs" by simp
    have "resolved_at S (pre @ [Index j]) (xs ! j) = xs ! j"
    proof (rule JArr.IH[OF nth_mem[OF j]])
      fix e assume "e \<in> set (discovered (pre @ [Index j]) (xs ! j))"
      then have "e \<in> set (discovered pre (JArr r xs))"
        using j by (auto simp: discovered_list_set)
      then show "path e \<notin> S" by (rule JArr.prems)
    qed
    then show "resolved_at_list S pre 0 xs ! j = xs ! j"
      using j by (simp add: resolved_at_list_nth)
  qed
  then show ?case by simp
next
  case (JObj r kvs)
  have "resolved_at S (pre @ [Key (fst kv)]) (snd kv) = snd kv"
    if "kv \<in> set kvs" for kv
  proof (rule JObj.IH[OF that])
    show "snd kv \<in> Basic_BNFs.snds kv" by (cases kv) simp
    fix e assume "e \<in> set (discovered (pre @ [Key (fst kv)]) (snd kv))"
    then have "e \<in> set (discovered pre (JObj r kvs))"
      using that by (auto simp: discovered_fields_set)
    then show "path e \<notin> S" by (rule JObj.prems)
  qed
  then have "map (\<lambda>kv. (fst kv, resolved_at S (pre @ [Key (fst kv)]) (snd kv))) kvs = map (\<lambda>kv. kv) kvs"
    by (intro map_cong) auto
  then show ?case by (simp add: resolved_at_fields_map)
qed simp_all

lemma resolved_at_all:
  "(\<And>e. e \<in> set (discovered pre v) \<Longrightarrow> path e \<in> S) \<Longrightarrow> resolved_at S pre v = resolve_pass v"
proof (induction v arbitrary: pre)
  case (JArr r xs)
  have "resolved_at_list S pre 0 xs = map resolve_pass xs"
  proof (rule nth_equalityI)
    show "length (resolved_at_list S pre 0 xs) = length (map resolve_pass xs)" by simp
    fix j assume "j < length (resolved_at_list S pre 0 xs)"
    then have j: "j < length xs" by simp
    have "resolved_at S (pre @ [Index j]) (xs ! j) = resolve_pass (xs ! j)"
    proof (rule JArr.IH[OF nth_mem[OF j]])
      fix e assume "e \<in> set (discovered (pre @ [Index j]) (xs ! j))"
      then have "e \<in> set (discovered pre (JArr r xs))"
        using j by (auto simp: discovered_list_set)
      then show "path e \<in> S" by (rule JArr.prems)
    qed
    then show "resolved_at_list S pre 0 xs ! j = map resolve_pass xs ! j"
      using j by (simp add: resolved_at_list_nth)
  qed
  then show ?case by simp
next
  case (JObj r kvs)
  have "resolved_at S (pre @ [Key (fst kv)]) (snd kv) = resolve_pass (snd kv)"
    if "kv \<in> set kvs" for kv
  proof (rule JObj.IH[OF that])
    show "snd kv \<in> Basic_BNFs.snds kv" by (cases kv) simp
    fix e assume "e \<in> set (discovered (pre @ [Key (fst kv)]) (snd kv))"
    then have "e \<in> set (discovered pre (JObj r kvs))"
      using that by (auto simp: discovered_fields_set)
    then show "path e \<in> S" by (rule JObj.prems)
  qed
  then have "map (\<lambda>kv. (fst kv, resolved_at S (pre @ [Key (fst kv)]) (snd kv))) kvs
      = map (map_prod (\<lambda>k. k) resolve_pass) kvs"
    by (intro map_cong) (auto simp: map_prod_def split: prod.splits)
  then show ?case by (simp add: resolved_at_fields_map)
qed simp_all

lemma discovered_at_node:
  assumes "e \<in> set (discovered pre v)" "path e = pre"
  shows "\<exists>x. v = JPromise x \<and> promise e = JPromise x"
  using discovered_below[OF assms(1)] assms(2) by auto

lemma not_discovered_elsewhere:
  assumes "path e = pre @ k # q" "k \<noteq> k'"
  shows "path e \<notin> path ` set (discovered (pre @ [k']) v)"
proof
  assume "path e \<in> path ` set (discovered (pre @ [k']) v)"
  then obtain e' where "e' \<in> set (discovered (pre @ [k']) v)" "path e' = path e" by auto
  then obtain q' where "path e = (pre @ [k']) @ q'" using discovered_prefix by metis
  with assms show False by simp
qed

lemma js_set_property_old:
  "k \<in> fst ` set kvs \<Longrightarrow>
   js_set_property kvs k x = map (\<lambda>(k', v'). if k' = k then (k', x) else (k', v')) kvs"
  by (simp add: js_set_property_def)

lemma splice_resolved_at:
  assumes "ordinary_keys v" "e \<in> set (discovered pre v)" "path e = pre @ q" "q \<noteq> []"
  shows "splice_at (resolved_at S pre v) q (js_await (promise e))
           = Inr (resolved_at (insert (path e) S) pre v)"
  using assms
proof (induction v arbitrary: pre q)
  case (JArr r xs)
  let ?S' = "insert (path e) S"
  let ?ys = "resolved_at_list S pre 0 xs"
  obtain j where j: "j < length xs" "e \<in> set (discovered (pre @ [Index j]) (xs ! j))"
    using JArr.prems(2) by (auto simp: discovered_list_set)
  obtain q' where q': "path e = (pre @ [Index j]) @ q'"
    using discovered_prefix[OF j(2)] by blast
  with JArr.prems(3) have q: "q = Index j # q'" by simp
  have wfj: "ordinary_keys (xs ! j)" using JArr.prems(1) j(1) by (simp add: list_all_length)
  have upd: "resolved_at_list ?S' pre 0 xs = ?ys[j := resolved_at ?S' (pre @ [Index j]) (xs ! j)]"
  proof (rule nth_equalityI)
    show "length (resolved_at_list ?S' pre 0 xs)
        = length (?ys[j := resolved_at ?S' (pre @ [Index j]) (xs ! j)])" by simp
    fix i assume "i < length (resolved_at_list ?S' pre 0 xs)"
    then have i: "i < length xs" by simp
    show "resolved_at_list ?S' pre 0 xs ! i
        = ?ys[j := resolved_at ?S' (pre @ [Index j]) (xs ! j)] ! i"
    proof (cases "i = j")
      case True
      then show ?thesis using j(1) by (simp add: resolved_at_list_nth)
    next
      case False
      then have "Index j \<noteq> Index i" by simp
      from not_discovered_elsewhere[OF _ this, of e pre q' "xs ! i"] q'
      have "resolved_at ?S' (pre @ [Index i]) (xs ! i) = resolved_at S (pre @ [Index i]) (xs ! i)"
        by (simp add: resolved_at_insert_other)
      then show ?thesis using False i by (simp add: resolved_at_list_nth)
    qed
  qed
  show ?case
  proof (cases "q' = []")
    case True
    then obtain x where x: "xs ! j = JPromise x" "promise e = JPromise x"
      using discovered_at_node[OF j(2)] q' by auto
    have rx: "resolved_at ?S' (pre @ [Index j]) (xs ! j) = x"
      using x q' True by simp
    have "splice_at (JArr r ?ys) [Index j] x = Inr (JArr r (?ys[j := x]))"
      using j(1) by (simp add: splice_single js_assign_def)
    then show ?thesis
      using True q x(2) by (simp add: js_await_def upd rx)
  next
    case False
    have "splice_at (resolved_at S (pre @ [Index j]) (xs ! j)) q' (js_await (promise e))
        = Inr (resolved_at ?S' (pre @ [Index j]) (xs ! j))"
      by (rule JArr.IH[OF nth_mem[OF j(1)] wfj j(2) q' False])
    then show ?thesis
      using False q j(1) upd
      by (simp add: splice_array_descend resolved_at_list_nth)
  qed
next
  case (JObj r kvs)
  let ?S' = "insert (path e) S"
  let ?fields = "resolved_at_fields S pre kvs"
  obtain kv where kv: "kv \<in> set kvs" "e \<in> set (discovered (pre @ [Key (fst kv)]) (snd kv))"
    using JObj.prems(2) by (auto simp: discovered_fields_set)
  obtain k v where kve: "kv = (k, v)" by (cases kv)
  have kvin: "(k, v) \<in> set kvs" using kv(1) kve by simp
  have ein: "e \<in> set (discovered (pre @ [Key k]) v)" using kv(2) kve by simp
  obtain q' where q': "path e = (pre @ [Key k]) @ q'"
    using discovered_prefix[OF ein] by blast
  with JObj.prems(3) have q: "q = Key k # q'" by simp
  have d: "distinct (map fst kvs)" using JObj.prems(1) by simp
  have wfv: "ordinary_keys v" using JObj.prems(1) kvin by (auto simp: list_all_iff)
  have dfields: "distinct (map fst ?fields)"
    using d by (simp add: resolved_at_fields_map comp_def)
  have infields: "(k, resolved_at S (pre @ [Key k]) v) \<in> set ?fields"
    using kvin by (force simp: resolved_at_fields_map)
  have upd: "resolved_at_fields ?S' pre kvs
      = map (\<lambda>(k', v'). if k' = k then (k', resolved_at ?S' (pre @ [Key k]) v) else (k', v')) ?fields"
    unfolding resolved_at_fields_map map_map
  proof (rule map_cong[OF refl])
    fix kv' assume kv': "kv' \<in> set kvs"
    show "(fst kv', resolved_at ?S' (pre @ [Key (fst kv')]) (snd kv'))
        = ((\<lambda>(k', v'). if k' = k then (k', resolved_at ?S' (pre @ [Key k]) v) else (k', v')) \<circ>
           (\<lambda>kv. (fst kv, resolved_at S (pre @ [Key (fst kv)]) (snd kv)))) kv'"
    proof (cases "fst kv' = k")
      case True
      then have "kv' = (k, v)" using d kv' kvin by (cases kv') (auto dest: eq_key_imp_eq_value)
      then show ?thesis by simp
    next
      case False
      then have "Key k \<noteq> Key (fst kv')" by simp
      from not_discovered_elsewhere[OF _ this, of e pre q' "snd kv'"] q'
      have "resolved_at ?S' (pre @ [Key (fst kv')]) (snd kv')
          = resolved_at S (pre @ [Key (fst kv')]) (snd kv')"
        by (simp add: resolved_at_insert_other)
      then show ?thesis using False by simp
    qed
  qed
  show ?case
  proof (cases "q' = []")
    case True
    then obtain x where x: "v = JPromise x" "promise e = JPromise x"
      using discovered_at_node[OF ein] q' by auto
    have rx: "resolved_at ?S' (pre @ [Key k]) v = x"
      using x q' True by simp
    have kin: "k \<in> fst ` set ?fields" using infields by force
    have "splice_at (JObj r ?fields) [Key k] x
        = Inr (JObj r (map (\<lambda>(k', v'). if k' = k then (k', x) else (k', v')) ?fields))"
      by (simp add: splice_single js_assign_def key_of_step_def js_set_property_old[OF kin])
    then show ?thesis
      using True q x(2) by (simp add: js_await_def upd[unfolded rx])
  next
    case False
    have "snd kv \<in> Basic_BNFs.snds kv" by (cases kv) simp
    from JObj.IH[OF kv(1) this, of "pre @ [Key k]" q'] kve wfv ein q' False
    have "splice_at (resolved_at S (pre @ [Key k]) v) q' (js_await (promise e))
        = Inr (resolved_at ?S' (pre @ [Key k]) v)"
      by simp
    then show ?thesis
      using False q upd
      by (simp add: splice_object_descend[OF False dfields infields])
  qed
qed simp_all

section \<open>The passes of the resolver\<close>

lemma array_sort_insert_set [simp]: "set (array_sort_insert c x ys) = insert x (set ys)"
  by (induction ys) auto

lemma array_sort_fold_set: "set (foldl (\<lambda>sorted x. array_sort_insert c x sorted) acc xs) = set acc \<union> set xs"
  by (induction xs arbitrary: acc) auto

lemma array_sort_set [simp]: "set (array_sort c xs) = set xs"
  by (simp add: array_sort_def array_sort_fold_set)

lemma splice_loop_resolved:
  assumes "ordinary_keys root" "\<And>e. e \<in> set ps \<Longrightarrow> e \<in> set (discovered [] root) \<and> path e \<noteq> []"
  shows "splice_loop (resolved_at S [] root) ps (map js_await (map promise ps))
           = Inr (resolved_at (S \<union> path ` set ps) [] root)"
  using assms(2)
proof (induction ps arbitrary: S)
  case Nil
  then show ?case by simp
next
  case (Cons e ps)
  have e: "e \<in> set (discovered [] root)" "path e \<noteq> []" using Cons.prems by auto
  have step: "splice_at (resolved_at S [] root) (path e) (js_await (promise e))
      = Inr (resolved_at (insert (path e) S) [] root)"
    using splice_resolved_at[OF assms(1) e(1), of "path e" S] e(2) by simp
  have "splice_loop (resolved_at (insert (path e) S) [] root) ps (map js_await (map promise ps))
      = Inr (resolved_at (insert (path e) S \<union> path ` set ps) [] root)"
    by (rule Cons.IH) (use Cons.prems in auto)
  then show ?case by (simp add: step nth_or_undefined_def)
qed

lemma extractPromises_scan:
  assumes "ordinary_keys a"
  shows "extractPromises a h =
     ((discovered [Index 0] a, JArr (Suc (next_ref h)) [fst (fresh_copy (Suc (Suc (next_ref h))) a)]),
      \<lparr>next_ref = snd (fresh_copy (Suc (Suc (next_ref h))) a)\<rparr>)"
proof -
  have "ordinary_keys (JArr (next_ref h) [a])" using assms by simp
  from visit_scan[OF this]
  show ?thesis
    by (simp add: extractPromises_def recursiveMapper_def scan_result_def split: prod.splits)
qed

lemma splice_pass:
  assumes "ordinary_keys c" "set ps = set (discovered [Index 0] c)"
  shows "splice_loop (JArr n [c]) ps (map js_await (map promise ps)) = Inr (JArr n [resolve_pass c])"
proof -
  let ?root = "JArr n [c]"
  have wf: "ordinary_keys ?root" using assms(1) by simp
  have d: "discovered [] ?root = discovered [Index 0] c" by simp
  have ne: "path e \<noteq> []" if "e \<in> set (discovered [] ?root)" for e
    using discovered_below[OF that] by auto
  have start: "resolved_at {} [] ?root = ?root"
    by (rule resolved_at_none) simp
  have fin: "resolved_at ({} \<union> path ` set ps) [] ?root = resolve_pass ?root"
    by (rule resolved_at_all) (use assms(2) d in auto)
  have "splice_loop (resolved_at {} [] ?root) ps (map js_await (map promise ps))
      = Inr (resolved_at ({} \<union> path ` set ps) [] ?root)"
    by (rule splice_loop_resolved[OF wf]) (use assms(2) d ne in auto)
  then show ?thesis unfolding start fin by simp
qed

lemma promiseAll_loop_result:
  assumes "ordinary_keys a"
  shows "\<exists>r h'. promiseAll_loop limit cnt a h = Some (r, h') \<and>
           (if limit \<noteq> 0 \<and> 0 < passes_needed a \<and> limit < int cnt + int (passes_needed a)
            then r = Inl (Error (limit_message limit))
            else \<exists>v. r = Inr v \<and> deep_equal v (materialized a))"
  using assms
proof (induction "passes_needed a" arbitrary: a cnt h)
  case 0
  then have none: "discovered [Index 0] a = []" by (simp add: discovered_nil)
  have "erase_refs (fst (fresh_copy (Suc (Suc (next_ref h))) a)) = erase_refs (materialized a)"
    using 0 by (simp add: fresh_copy_erase no_pass_materialized)
  then show ?case
    using 0
    by (subst promiseAll_loop.simps)
      (simp add: extractPromises_scan none nth_or_undefined_of_def nth_or_undefined_def deep_equal_def)
next
  case (Suc d)
  let ?c = "fst (fresh_copy (Suc (Suc (next_ref h))) a)"
  let ?found = "discovered [Index 0] a"
  let ?sorted = "array_sort promisePath_compare ?found"
  have some: "?found \<noteq> []" using Suc.hyps(2) by (simp add: discovered_nil)
  have wfc: "ordinary_keys ?c" using Suc.prems by (simp add: fresh_copy_wf)
  have sp: "splice_loop (JArr (Suc (next_ref h)) [?c]) ?sorted (map js_await (map promise ?sorted))
      = Inr (JArr (Suc (next_ref h)) [resolve_pass ?c])"
    by (rule splice_pass[OF wfc]) (simp add: fresh_copy_discovered)
  have pn: "passes_needed (resolve_pass ?c) = d"
    using Suc.hyps(2) passes_needed_erase[of ?c] passes_needed_erase[of a]
    by (simp add: passes_needed_resolve_pass fresh_copy_erase)
  have mat: "erase_refs (materialized (resolve_pass ?c)) = erase_refs (materialized a)"
    by (simp add: materialized_resolve_pass erase_materialized fresh_copy_erase)
  show ?case
  proof (cases "limit \<noteq> 0 \<and> limit \<le> int cnt")
    case True
    then show ?thesis
      using Suc.hyps(2) some
      by (subst promiseAll_loop.simps)
        (simp add: extractPromises_scan[OF Suc.prems])
  next
    case False
    obtain r h' where r: "promiseAll_loop limit (Suc cnt) (resolve_pass ?c)
          \<lparr>next_ref = snd (fresh_copy (Suc (Suc (next_ref h))) a)\<rparr> = Some (r, h')"
      "if limit \<noteq> 0 \<and> 0 < passes_needed (resolve_pass ?c)
            \<and> limit < int (Suc cnt) + int (passes_needed (resolve_pass ?c))
       then r = Inl (Error (limit_message limit))
       else \<exists>v. r = Inr v \<and> deep_equal v (materialized (resolve_pass ?c))"
      using Suc.hyps(1)[OF pn[symmetric] wf_resolve_pass[OF wfc], of "Suc cnt"] by blast
    have loop: "promiseAll_loop limit cnt a h = Some (r, h')"
      using False some r(1)
      by (subst promiseAll_loop.simps)
        (auto simp add: extractPromises_scan[OF Suc.prems] sp[unfolded map_map] Let_def
          nth_or_undefined_of_def nth_or_undefined_def)
    have "if limit \<noteq> 0 \<and> 0 < passes_needed a \<and> limit < int cnt + int (passes_needed a)
       then r = Inl (Error (limit_message limit))
       else \<exists>v. r = Inr v \<and> deep_equal v (materialized a)"
      using r(2) False Suc.hyps(2)[symmetric] pn mat
      by (auto simp: deep_equal_def split: if_splits)
    with loop show ?thesis by blast
  qed
qed

lemma js_get_error: "js_get v k = Inl e \<Longrightarrow> e = TypeError"
  by (auto simp: js_get_def split: jsval.splits step.splits option.splits if_splits)

lemma js_assign_error: "js_assign v k x = Inl e \<Longrightarrow> e = TypeError"
  by (auto simp: js_assign_def split: jsval.splits step.splits option.splits if_splits)

lemma recordLookup_loop_error: "recordLookup_loop js_get ks st = Inl e \<Longrightarrow> e = TypeError"
  by (induction ks arbitrary: st) (auto split: if_splits sum.splits dest: js_get_error)

lemma splice_at_error: "splice_at t p x = Inl e \<Longrightarrow> e = TypeError"
  by (auto simp: splice_at_def recordLookup_default_def recordLookup_def Let_def
      split: sum.splits dest: recordLookup_loop_error js_assign_error)

lemma splice_loop_error: "splice_loop t ps xs = Inl e \<Longrightarrow> e = TypeError"
  by (induction ps arbitrary: t xs) (auto split: sum.splits dest: splice_at_error)


lemma promiseAll_loop_no_limit_error:
  assumes "promiseAll_loop limit cnt a h = Some y"
  shows "limit = 0 \<longrightarrow> (\<forall>msg. fst y \<noteq> Inl (Error msg))"
proof (rule promiseAll_loop.raw_induct
    [where P = "\<lambda>limit cnt a h y. limit = 0 \<longrightarrow> (\<forall>msg. fst y \<noteq> Inl (Error msg))", OF _ assms])
  fix f :: "int \<Rightarrow> nat \<Rightarrow> jsval \<Rightarrow> heap \<Rightarrow> ((error + jsval) \<times> heap) option"
    and limit cnt a h y
  assume IH: "\<And>limit cnt a h y. f limit cnt a h = Some y \<Longrightarrow>
      limit = 0 \<longrightarrow> (\<forall>msg. fst y \<noteq> Inl (Error msg))"
  assume body: "(case extractPromises a h of
      ((found, promisified), h') \<Rightarrow>
        if length found = 0
        then Some (Inr (nth_or_undefined_of promisified 0), h')
        else if limit \<noteq> 0 \<and> limit \<le> int cnt
             then Some (Inl (Error (limit_message limit)), h')
             else let sorted = array_sort promisePath_compare found;
                      promises = map promise sorted;
                      resolvedValues = map js_await promises
                  in case splice_loop promisified sorted resolvedValues of
                     Inl e \<Rightarrow> Some (Inl e, h')
                     | Inr promisified' \<Rightarrow>
                         f limit (Suc cnt) (nth_or_undefined_of promisified' 0) h') = Some y"
  show "limit = 0 \<longrightarrow> (\<forall>msg. fst y \<noteq> Inl (Error msg))"
  proof (intro impI allI)
    fix msg assume l0: "limit = 0"
    obtain found promisified h' where ex: "extractPromises a h = ((found, promisified), h')"
      by (metis surj_pair)
    show "fst y \<noteq> Inl (Error msg)"
    proof (cases "length found = 0")
      case True
      with body ex show ?thesis by auto
    next
      case False
      show ?thesis
      proof (cases "splice_loop promisified (array_sort promisePath_compare found)
                (map js_await (map promise (array_sort promisePath_compare found)))")
        case (Inl e)
        then have "e = TypeError" by (rule splice_loop_error)
        with body ex False l0 Inl show ?thesis by (auto simp: Let_def)
      next
        case (Inr t)
        with body ex False l0 have "f limit (Suc cnt) (nth_or_undefined_of t 0) h' = Some y"
          by (simp add: Let_def)
        from IH[OF this] l0 show ?thesis by simp
      qed
    qed
  qed
qed

lemma promiseAll_loop_step:
  assumes "ordinary_keys a"
  shows "promiseAll_loop limit cnt a h =
     (if passes_needed a = 0
      then Some (Inr (fst (fresh_copy (Suc (Suc (next_ref h))) a)),
                 \<lparr>next_ref = snd (fresh_copy (Suc (Suc (next_ref h))) a)\<rparr>)
      else if limit \<noteq> 0 \<and> limit \<le> int cnt
      then Some (Inl (Error (limit_message limit)),
                 \<lparr>next_ref = snd (fresh_copy (Suc (Suc (next_ref h))) a)\<rparr>)
      else promiseAll_loop limit (Suc cnt)
             (resolve_pass (fst (fresh_copy (Suc (Suc (next_ref h))) a)))
             \<lparr>next_ref = snd (fresh_copy (Suc (Suc (next_ref h))) a)\<rparr>)"
proof -
  let ?c = "fst (fresh_copy (Suc (Suc (next_ref h))) a)"
  let ?found = "discovered [Index 0] a"
  let ?sorted = "array_sort promisePath_compare ?found"
  have wfc: "ordinary_keys ?c" using assms by (simp add: fresh_copy_wf)
  have sp: "splice_loop (JArr (Suc (next_ref h)) [?c]) ?sorted (map js_await (map promise ?sorted))
      = Inr (JArr (Suc (next_ref h)) [resolve_pass ?c])"
    by (rule splice_pass[OF wfc]) (simp add: fresh_copy_discovered)
  have nil: "(?found = []) = (passes_needed a = 0)" by (simp add: discovered_nil)
  show ?thesis
    by (subst promiseAll_loop.simps)
      (auto simp add: extractPromises_scan[OF assms] sp[unfolded map_map] Let_def nil
        nth_or_undefined_of_def nth_or_undefined_def)
qed

lemma promise_chain_wf [simp]: "ordinary_keys (promise_chain n)"
  by (induction n) simp_all

lemma promise_chain_passes [simp]: "passes_needed (promise_chain n) = n"
  by (induction n) simp_all

section \<open>The order of splicing\<close>

lemma array_sort_insert_mset [simp]:
  "mset (array_sort_insert c x ys) = add_mset x (mset ys)"
  by (induction ys) auto

lemma array_sort_fold_mset:
  "mset (foldl (\<lambda>sorted x. array_sort_insert c x sorted) acc xs) = mset acc + mset xs"
  by (induction xs arbitrary: acc) auto





text \<open>The same for the sort that tests \<^verbatim>\<open>> 0\<close>; it puts equal lengths in reverse.\<close>

lemma shift_insert_mset [simp]:
  "mset (array_sort_shift_insert c x ys) = add_mset x (mset ys)"
  by (induction ys) auto

lemma shift_insert_set [simp]:
  "set (array_sort_shift_insert c x ys) = insert x (set ys)"
  by (induction ys) auto

lemma shift_fold_mset:
  "mset (foldl (\<lambda>placed x. array_sort_shift_insert c x placed) acc xs) = mset acc + mset xs"
  by (induction xs arbitrary: acc) auto






text \<open>
  On a comparator that is consistent with a key (negative exactly when the key is
  smaller, positive exactly when it is greater) each of the two sorts is the stable sort
  by that key.
\<close>

lemma insert_key_sorted:
  fixes f :: "'a \<Rightarrow> 'b::linorder"
  assumes c: "\<And>x y. (c x y < 0) = (f x < f y)" and "sorted (map f ys)"
  shows "sorted (map f (array_sort_insert c x ys))"
  using assms(2)
proof (induction ys)
  case Nil
  then show ?case by simp
next
  case (Cons y ys)
  have s: "set (array_sort_insert c x ys) = insert x (set ys)"
    by (metis array_sort_insert_mset set_mset_add_mset_insert set_mset_mset)
  show ?case
  proof (cases "f x < f y")
    case True
    with Cons.prems show ?thesis by (auto simp: c)
  next
    case False
    with Cons s show ?thesis by (auto simp: c)
  qed
qed

lemma insert_key_filter:
  fixes f :: "'a \<Rightarrow> 'b::linorder"
  assumes c: "\<And>x y. (c x y < 0) = (f x < f y)" and "sorted (map f ys)"
  shows "filter (\<lambda>z. f z = k) (array_sort_insert c x ys)
       = filter (\<lambda>z. f z = k) ys @ (if f x = k then [x] else [])"
  using assms(2)
proof (induction ys)
  case Nil
  then show ?case by simp
next
  case (Cons y ys)
  show ?case
  proof (cases "f x < f y")
    case True
    then have "\<forall>z\<in>set (y # ys). f x < f z" using Cons.prems by fastforce
    then have "f x = k \<Longrightarrow> filter (\<lambda>z. f z = k) (y # ys) = []"
      by (auto simp: filter_empty_conv)
    with True show ?thesis by (auto simp: c)
  next
    case False
    with Cons show ?thesis by (auto simp: c)
  qed
qed

lemma fold_key_sorted:
  fixes f :: "'a \<Rightarrow> 'b::linorder"
  assumes c: "\<And>x y. (c x y < 0) = (f x < f y)"
  shows "sorted (map f acc) \<Longrightarrow>
     sorted (map f (foldl (\<lambda>sorted x. array_sort_insert c x sorted) acc xs))"
  by (induction xs arbitrary: acc) (simp_all add: insert_key_sorted[OF c])

lemma fold_key_filter:
  fixes f :: "'a \<Rightarrow> 'b::linorder"
  assumes c: "\<And>x y. (c x y < 0) = (f x < f y)"
  shows "sorted (map f acc) \<Longrightarrow>
     filter (\<lambda>z. f z = k) (foldl (\<lambda>sorted x. array_sort_insert c x sorted) acc xs)
     = filter (\<lambda>z. f z = k) acc @ filter (\<lambda>z. f z = k) xs"
  by (induction xs arbitrary: acc)
    (simp_all add: insert_key_sorted[OF c] insert_key_filter[OF c])

lemma array_sort_is_stable_sort:
  fixes f :: "'a \<Rightarrow> 'b::linorder"
  assumes c: "\<And>x y. (c x y < 0) = (f x < f y)"
  shows "array_sort c xs = sort_key f xs"
proof (rule properties_for_sort_key[symmetric])
  show "mset (array_sort c xs) = mset xs"
    by (simp add: array_sort_def array_sort_fold_mset)
  show "sorted (map f (array_sort c xs))"
    using fold_key_sorted[OF c, where acc="[]" and xs=xs] by (simp add: array_sort_def)
  fix k assume "k \<in> set (array_sort c xs)"
  have "filter (\<lambda>z. f z = f k) (array_sort c xs) = filter (\<lambda>z. f z = f k) xs"
    using fold_key_filter[OF c, where acc="[]" and k="f k" and xs=xs] by (simp add: array_sort_def)
  then show "filter (\<lambda>x. f k = f x) (array_sort c xs) = filter (\<lambda>x. f k = f x) xs"
    by (simp add: eq_commute)
qed

lemma shift_key_sorted:
  fixes f :: "'a \<Rightarrow> 'b::linorder"
  assumes c: "\<And>x y. (c x y > 0) = (f x > f y)"
    and "sorted_wrt (\<lambda>a b. f b \<le> f a) ys"
  shows "sorted_wrt (\<lambda>a b. f b \<le> f a) (array_sort_shift_insert c x ys)"
  using assms(2)
proof (induction ys)
  case Nil
  then show ?case by simp
next
  case (Cons y ys)
  show ?case
  proof (cases "f y > f x")
    case True
    with Cons show ?thesis by (auto simp: c)
  next
    case False
    with Cons.prems show ?thesis by (fastforce simp: c)
  qed
qed

lemma shift_key_filter:
  fixes f :: "'a \<Rightarrow> 'b::linorder"
  assumes c: "\<And>x y. (c x y > 0) = (f x > f y)"
  shows "filter (\<lambda>z. f z = k) (array_sort_shift_insert c x ys)
       = (if f x = k then [x] else []) @ filter (\<lambda>z. f z = k) ys"
  by (induction ys) (auto simp: c)

lemma shift_fold_key_sorted:
  fixes f :: "'a \<Rightarrow> 'b::linorder"
  assumes c: "\<And>x y. (c x y > 0) = (f x > f y)"
  shows "sorted_wrt (\<lambda>a b. f b \<le> f a) acc \<Longrightarrow>
     sorted_wrt (\<lambda>a b. f b \<le> f a)
       (foldl (\<lambda>placed x. array_sort_shift_insert c x placed) acc xs)"
  by (induction xs arbitrary: acc) (simp_all add: shift_key_sorted[OF c])

lemma shift_fold_key_filter:
  fixes f :: "'a \<Rightarrow> 'b::linorder"
  assumes c: "\<And>x y. (c x y > 0) = (f x > f y)"
  shows "filter (\<lambda>z. f z = k) (foldl (\<lambda>placed x. array_sort_shift_insert c x placed) acc xs)
     = rev (filter (\<lambda>z. f z = k) xs) @ filter (\<lambda>z. f z = k) acc"
  by (induction xs arbitrary: acc) (simp_all add: shift_key_filter[OF c])

lemma array_sort_shift_is_stable_sort:
  fixes f :: "'a \<Rightarrow> 'b::linorder"
  assumes c: "\<And>x y. (c x y > 0) = (f x > f y)"
  shows "array_sort_shift c xs = sort_key f xs"
proof (rule properties_for_sort_key[symmetric])
  show "mset (array_sort_shift c xs) = mset xs"
    by (simp add: array_sort_shift_def shift_fold_mset)
  show "sorted (map f (array_sort_shift c xs))"
    using shift_fold_key_sorted[OF c, where acc="[]" and xs=xs]
    by (simp add: array_sort_shift_def sorted_wrt_rev sorted_map)
  fix k assume "k \<in> set (array_sort_shift c xs)"
  have "filter (\<lambda>z. f z = f k) (array_sort_shift c xs)
      = rev (filter (\<lambda>z. f z = f k)
          (foldl (\<lambda>placed x. array_sort_shift_insert c x placed) [] xs))"
    unfolding array_sort_shift_def by (rule rev_filter[symmetric])
  also have "\<dots> = filter (\<lambda>z. f z = f k) xs"
    by (simp add: shift_fold_key_filter[OF c])
  finally show "filter (\<lambda>x. f k = f x) (array_sort_shift c xs) = filter (\<lambda>x. f k = f x) xs"
    by (simp add: eq_commute)
qed
section \<open>The claims about the resolver\<close>

text \<open>The message of the limit error, for the limits 1 and 10.\<close>

lemma limit_message_1:
  "limit_message 1 = ''Could not resolve all promises with limit 1. Sorry.''"
  by (simp add: limit_message_def string_of_int_def string_of_nat.simps digit_char_def)

lemma limit_message_10:
  "limit_message 10 = ''Could not resolve all promises with limit 10. Sorry.''"
  by (simp add: limit_message_def string_of_int_def string_of_nat.simps digit_char_def)

text \<open>
  Definitions to unfold when a scan and the splices of a pass are evaluated on a given
  value.
\<close>

lemmas scan_eval = extractPromises_def recursiveMapper_def recursiveMapper_visit.simps
  extractPromises_pathFn_def present_def empty_optional_def
  arrReductionToRecursivePathFn_def objReductionToRecursivePathFn_def recordReducer_def
  object_keys_def own_property_def js_set_property_def

lemmas splice_eval = array_sort_def promisePath_compare_def js_await_def splice_at_def
  recordLookup_default_def recordLookup_def js_get_def js_assign_def last_key_def
  key_of_step_def nth_or_undefined_def nth_or_undefined_of_def js_set_property_def
  own_property_def Let_def





text \<open>
  The limit at two passes, off the key \<^verbatim>\<open>__proto__\<close>. Let \<open>a\<close>, a value with ordinary
  keys, need exactly two passes (a promise of an array that holds a promise is such a
  value). With the limit 2 the resolver returns a value deep-equal to the fully
  materialized \<open>a\<close>; with the limit 1 it fails with the error whose message names the
  limit: \<^verbatim>\<open>Could not resolve all promises with limit 1. Sorry.\<close>
\<close>

theorem promiseAll_two_passes:
  "ordinary_keys a \<and> passes_needed a = 2 \<longrightarrow>
     (\<exists>v h'. promiseAll a (Some 2) h = Some (Inr v, h') \<and> deep_equal v (materialized a)) \<and>
     (\<exists>h'. promiseAll a (Some 1) h = Some (Inl (Error (limit_message 1)), h')) \<and>
     limit_message 1 = ''Could not resolve all promises with limit 1. Sorry.''"
proof (intro impI conjI)
  assume a: "ordinary_keys a \<and> passes_needed a = 2"
  from promiseAll_loop_result[of a 2 0 h] a
  show "\<exists>v h'. promiseAll a (Some 2) h = Some (Inr v, h') \<and> deep_equal v (materialized a)"
    by (auto simp: promiseAll_def)
  from promiseAll_loop_result[of a 1 0 h] a
  show "\<exists>h'. promiseAll a (Some 1) h = Some (Inl (Error (limit_message 1)), h')"
    by (auto simp: promiseAll_def)
next
  show "limit_message 1 = ''Could not resolve all promises with limit 1. Sorry.''"
    by (rule limit_message_1)
qed

theorem promiseAll_two_passes_witness:
  "ordinary_keys (JPromise (JArr 0 [JPromise (JNum 1)])) \<and>
   passes_needed (JPromise (JArr 0 [JPromise (JNum 1)])) = 2 \<and>
   promiseAll (JPromise (JArr 0 [JPromise (JNum 1)])) (Some 2) \<lparr>next_ref = 0\<rparr>
     = Some (Inr (JArr 7 [JNum 1]), \<lparr>next_ref = 8\<rparr>) \<and>
   deep_equal (JArr 7 [JNum 1]) (materialized (JPromise (JArr 0 [JPromise (JNum 1)]))) \<and>
   promiseAll (JPromise (JArr 0 [JPromise (JNum 1)])) (Some 1) \<lparr>next_ref = 0\<rparr>
     = Some (Inl (Error ''Could not resolve all promises with limit 1. Sorry.''),
             \<lparr>next_ref = 5\<rparr>)"
  using promiseAll_two_passes[of "JPromise (JArr 0 [JPromise (JNum 1)])" "\<lparr>next_ref = 0\<rparr>"]
  by (simp add: promiseAll_def promiseAll_loop_step deep_equal_def limit_message_1)

text \<open>
  C4. A value that needs exactly two passes resolves with the limit 2 to its fully
  materialized value: this does not hold of the code when the value holds an object with
  a property named \<^verbatim>\<open>__proto__\<close>, because each pass copies the working structure by the
  copy that loses this key. With \<open>o\<close> the object \<^verbatim>\<open>JSON.parse('{"__proto__": 1}')\<close>,
  the value \<^verbatim>\<open>Promise.resolve([Promise.resolve(o)])\<close> needs two passes and resolves
  with the limit 2 to \<^verbatim>\<open>[{}]\<close>. And with the two promises under such a key the call
  with the limit 1 does not fail: the object whose one property, named
  \<^verbatim>\<open>__proto__\<close>, is \<^verbatim>\<open>Promise.resolve([Promise.resolve(1)])\<close> resolves to an object
  without properties.
\<close>

theorem promiseAll_two_passes_proto_key:
  "passes_needed (JPromise (JArr 0 [JPromise (JObj 1 [(''__proto__'', JNum 1)])])) = 2 \<and>
   materialized (JPromise (JArr 0 [JPromise (JObj 1 [(''__proto__'', JNum 1)])]))
     = JArr 0 [JObj 1 [(''__proto__'', JNum 1)]] \<and>
   promiseAll (JPromise (JArr 0 [JPromise (JObj 1 [(''__proto__'', JNum 1)])])) (Some 2)
       \<lparr>next_ref = 2\<rparr>
     = Some (Inr (JArr 9 [JObj 10 []]), \<lparr>next_ref = 11\<rparr>) \<and>
   \<not> deep_equal (JArr 9 [JObj 10 []]) (JArr 0 [JObj 1 [(''__proto__'', JNum 1)]]) \<and>
   passes_needed (JObj 0 [(''__proto__'', JPromise (JArr 1 [JPromise (JNum 1)]))]) = 2 \<and>
   promiseAll (JObj 0 [(''__proto__'', JPromise (JArr 1 [JPromise (JNum 1)]))]) (Some 1)
       \<lparr>next_ref = 2\<rparr>
     = Some (Inr (JObj 7 []), \<lparr>next_ref = 8\<rparr>)"
proof (intro conjI)
  show "promiseAll (JPromise (JArr 0 [JPromise (JObj 1 [(''__proto__'', JNum 1)])])) (Some 2)
       \<lparr>next_ref = 2\<rparr>
     = Some (Inr (JArr 9 [JObj 10 []]), \<lparr>next_ref = 11\<rparr>)"
    unfolding promiseAll_def
    apply (subst promiseAll_loop.simps)
    apply (simp add: scan_eval splice_eval)
    apply (subst promiseAll_loop.simps)
    apply (simp add: scan_eval splice_eval)
    apply (subst promiseAll_loop.simps)
    apply (simp add: scan_eval splice_eval)
    done
  show "promiseAll (JObj 0 [(''__proto__'', JPromise (JArr 1 [JPromise (JNum 1)]))]) (Some 1)
       \<lparr>next_ref = 2\<rparr>
     = Some (Inr (JObj 7 []), \<lparr>next_ref = 8\<rparr>)"
    unfolding promiseAll_def
    apply (subst promiseAll_loop.simps)
    apply (simp add: scan_eval splice_eval)
    apply (subst promiseAll_loop.simps)
    apply (simp add: scan_eval splice_eval)
    done
qed (simp_all add: deep_equal_def)

text \<open>
  C5, as the specification states it, does not hold: a call that passes no limit does
  not run without a limit. The value with 11 promises nested one inside the other needs
  11 passes; resolved without a limit it fails with the error that names the limit 10.
\<close>

theorem promiseAll_no_limit_counterexample:
  "promiseAll (promise_chain 11) None \<lparr>next_ref = 0\<rparr> =
     Some (Inl (Error ''Could not resolve all promises with limit 10. Sorry.''),
           \<lparr>next_ref = 77\<rparr>)"
  by (simp add: promiseAll_def promiseAll_loop_step eval_nat_numeral limit_message_10)

text \<open>
  C5, as the code has it. The parameter is declared with the default 10, so a call that
  passes no limit runs with the limit 10: on an input with ordinary keys it returns a
  value deep-equal to the fully materialized input when the input needs at most 10
  passes, and fails with the error that names the limit 10 when it needs more.
\<close>

theorem promiseAll_default_limit:
  "ordinary_keys a \<longrightarrow>
     (\<exists>r h'. promiseAll a None h = Some (r, h') \<and>
        (if 10 < passes_needed a then r = Inl (Error (limit_message 10))
         else \<exists>v. r = Inr v \<and> deep_equal v (materialized a)))"
proof
  assume "ordinary_keys a"
  from promiseAll_loop_result[OF this, of 10 0 h]
  show "\<exists>r h'. promiseAll a None h = Some (r, h') \<and>
        (if 10 < passes_needed a then r = Inl (Error (limit_message 10))
         else \<exists>v. r = Inr v \<and> deep_equal v (materialized a))"
    by (auto simp: promiseAll_def split: if_splits)
qed

theorem promiseAll_default_limit_witness:
  "ordinary_keys (JObj 0 [(''a'', JPromise (JNum 1)), (''b'', JPromise (JObj 1 [(''c'', JPromise (JNum 2))]))]) \<and>
   promiseAll (JObj 0 [(''a'', JPromise (JNum 1)), (''b'', JPromise (JObj 1 [(''c'', JPromise (JNum 2))]))])
       None \<lparr>next_ref = 2\<rparr>
     = Some (Inr (JObj 11 [(''a'', JNum 1), (''b'', JObj 12 [(''c'', JNum 2)])]), \<lparr>next_ref = 13\<rparr>) \<and>
   deep_equal (JObj 11 [(''a'', JNum 1), (''b'', JObj 12 [(''c'', JNum 2)])])
     (materialized (JObj 0 [(''a'', JPromise (JNum 1)), (''b'', JPromise (JObj 1 [(''c'', JPromise (JNum 2))]))]))"
  using promiseAll_default_limit
      [of "JObj 0 [(''a'', JPromise (JNum 1)), (''b'', JPromise (JObj 1 [(''c'', JPromise (JNum 2))]))]"
          "\<lparr>next_ref = 2\<rparr>"]
  by (simp add: promiseAll_def promiseAll_loop_step deep_equal_def)

text \<open>
  C9. With the limit 0 the resolver never fails with the limit error, on any input:
  the guard \<^verbatim>\<open>limit && count >= limit\<close> is false for 0. And it returns: on every
  input with ordinary keys the result is a value deep-equal to the fully materialized
  input, however many passes that takes.
\<close>

theorem promiseAll_limit_zero:
  "(\<forall>msg h'. promiseAll a (Some 0) h \<noteq> Some (Inl (Error msg), h')) \<and>
   (ordinary_keys a \<longrightarrow>
      (\<exists>v h'. promiseAll a (Some 0) h = Some (Inr v, h') \<and> deep_equal v (materialized a)))"
proof (intro conjI allI impI)
  fix msg h'
  show "promiseAll a (Some 0) h \<noteq> Some (Inl (Error msg), h')"
  proof
    assume "promiseAll a (Some 0) h = Some (Inl (Error msg), h')"
    then have "promiseAll_loop 0 0 a h = Some (Inl (Error msg), h')"
      by (simp add: promiseAll_def)
    from promiseAll_loop_no_limit_error[OF this] show False by simp
  qed
next
  assume "ordinary_keys a"
  from promiseAll_loop_result[OF this, of 0 0 h]
  show "\<exists>v h'. promiseAll a (Some 0) h = Some (Inr v, h') \<and> deep_equal v (materialized a)"
    by (auto simp: promiseAll_def)
qed

theorem promiseAll_limit_zero_witness:
  "ordinary_keys (promise_chain 3) \<and>
   promiseAll (promise_chain 3) (Some 0) \<lparr>next_ref = 0\<rparr>
     = Some (Inr (JArr 11 [JArr 12 [JArr 13 [JNum 1]]]), \<lparr>next_ref = 14\<rparr>) \<and>
   deep_equal (JArr 11 [JArr 12 [JArr 13 [JNum 1]]]) (materialized (promise_chain 3))"
  using promiseAll_limit_zero[of "promise_chain 3" "\<lparr>next_ref = 0\<rparr>"]
  by (simp add: promiseAll_def promiseAll_loop_step deep_equal_def eval_nat_numeral)

section \<open>Re-use of a constructed fold\<close>

lemma deep_equal_refl [simp]: "deep_equal a a"
  by (simp add: deep_equal_def)

lemma recordReducer_loop_blind:
  assumes "combine_pure cb" "deep_equal acc acc'"
  shows "deep_equal (fst (recordReducer_loop cb rec keys acc s))
           (fst (recordReducer_loop cb rec keys acc' s'))"
  using assms(2)
proof (induction keys arbitrary: acc acc' s s')
  case Nil
  then show ?case by simp
next
  case (Cons k keys)
  have "deep_equal (fst (cb acc (own_property rec k) k s)) (fst (cb acc' (own_property rec k) k s'))"
    using assms(1) Cons.prems by (simp add: combine_pure_def)
  from Cons.IH[OF this] show ?case by (simp add: split_beta)
qed

lemma recordReducer_blind:
  assumes "seed_fresh init" "combine_pure cb"
  shows "deep_equal (fst (recordReducer cb init rec s)) (fst (recordReducer cb init rec s'))"
proof -
  have "deep_equal (fst (init s)) (fst (init s'))" using assms(1) by (simp add: seed_fresh_def)
  from recordReducer_loop_blind[OF assms(2) this]
  show ?thesis by (simp add: recordReducer_def split_beta)
qed

lemma array_reduce_blind:
  assumes step: "\<And>prev prev' x i i' s s'. x \<in> set rs \<Longrightarrow> deep_equal prev prev' \<Longrightarrow>
      deep_equal (fst (f prev x i s)) (fst (g prev' x i' s'))"
    and "deep_equal acc acc'"
  shows "deep_equal (fst (array_reduce f i rs acc s)) (fst (array_reduce g i' rs acc' s'))"
  using assms
proof (induction rs arbitrary: i i' acc acc' s s')
  case Nil
  then show ?case by simp
next
  case (Cons x xs)
  have "deep_equal (fst (f acc x i s)) (fst (g acc' x i' s'))"
    using Cons.prems by simp
  then have "deep_equal (fst (array_reduce f (Suc i) xs (fst (f acc x i s)) (snd (f acc x i s))))
      (fst (array_reduce g (Suc i') xs (fst (g acc' x i' s')) (snd (g acc' x i' s'))))"
    by (rule Cons.IH[rotated]) (use Cons.prems(1) in auto)
  then show ?case by (simp add: split_beta)
qed

lemma recordReducer_loop_blind2:
  assumes step: "\<And>prev prev' k s s'. k \<in> set keys \<Longrightarrow> deep_equal prev prev' \<Longrightarrow>
      deep_equal (fst (f prev (own_property rec k) k s)) (fst (g prev' (own_property rec k) k s'))"
    and "deep_equal acc acc'"
  shows "deep_equal (fst (recordReducer_loop f rec keys acc s))
           (fst (recordReducer_loop g rec keys acc' s'))"
  using assms
proof (induction keys arbitrary: acc acc' s s')
  case Nil
  then show ?case by simp
next
  case (Cons k keys)
  have "deep_equal (fst (f acc (own_property rec k) k s)) (fst (g acc' (own_property rec k) k s'))"
    using Cons.prems by simp
  then have "deep_equal
      (fst (recordReducer_loop f rec keys (fst (f acc (own_property rec k) k s))
              (snd (f acc (own_property rec k) k s))))
      (fst (recordReducer_loop g rec keys (fst (g acc' (own_property rec k) k s'))
              (snd (g acc' (own_property rec k) k s'))))"
    by (rule Cons.IH[rotated]) (use Cons.prems(1) in auto)
  then show ?case by (simp add: split_beta)
qed

lemma arr_fold_blind:
  assumes "seed_fresh init" "combine_pure (\<lambda>prev cur (k::unit). cb prev cur)"
    and IH: "\<And>x p p' s s'. x \<in> set xs \<Longrightarrow> deep_equal (fst (R x p s)) (fst (R x p' s'))"
  shows "deep_equal
     (fst (arrReductionToRecursivePathFn
             \<lparr>initial = init, callback = (\<lambda>prev cur index. cb prev cur)\<rparr> R xs pa s))
     (fst (arrReductionToRecursivePathFn
             \<lparr>initial = init, callback = (\<lambda>prev cur index. cb prev cur)\<rparr> R xs pa' s'))"
proof -
  have seed: "deep_equal (fst (init s)) (fst (init s'))"
    using assms(1) by (simp add: seed_fresh_def)
  have cbp: "deep_equal (fst (cb p c t)) (fst (cb p' c' t'))"
    if "deep_equal p p'" "deep_equal c c'" for p p' c c' t t'
    using assms(2) that unfolding combine_pure_def by blast
  show ?thesis
    unfolding arrReductionToRecursivePathFn_def
    by (simp add: split_beta) (rule array_reduce_blind[OF _ seed], simp add: split_beta cbp IH)
qed

lemma obj_fold_blind:
  assumes "seed_fresh init" "combine_pure (\<lambda>prev cur (k::unit). cb prev cur)"
    and IH: "\<And>k p p' s s'. k \<in> set (object_keys rec) \<Longrightarrow>
        deep_equal (fst (R (own_property rec k) p s)) (fst (R (own_property rec k) p' s'))"
  shows "deep_equal
     (fst (objReductionToRecursivePathFn
             \<lparr>initial = init, callback = (\<lambda>prev cur key. cb prev cur)\<rparr> R rec pa s))
     (fst (objReductionToRecursivePathFn
             \<lparr>initial = init, callback = (\<lambda>prev cur key. cb prev cur)\<rparr> R rec pa' s'))"
proof -
  have seed: "deep_equal (fst (init s)) (fst (init s'))"
    using assms(1) by (simp add: seed_fresh_def)
  have cbp: "deep_equal (fst (cb p c t)) (fst (cb p' c' t'))"
    if "deep_equal p p'" "deep_equal c c'" for p p' c c' t t'
    using assms(2) that unfolding combine_pure_def by blast
  show ?thesis
    unfolding objReductionToRecursivePathFn_def recordReducer_def
    by (simp add: split_beta) (rule recordReducer_loop_blind2[OF _ seed], simp add: split_beta cbp IH)
qed

lemma own_property_in_set:
  "k \<in> set (object_keys kvs) \<Longrightarrow> (k, own_property kvs k) \<in> set kvs"
  by (induction kvs) (auto simp: object_keys_def own_property_def)

lemma visit_blind_leaf:
  assumes "mapper_pure mapper" "override_pure opt" "own_enumerable x = None"
  shows "deep_equal (fst (recursiveMapperReducer_visit mapper cb init opt x pa s))
           (fst (recursiveMapperReducer_visit mapper cb init opt x pa' s'))"
proof -
  have o: "rel_option deep_equal (fst (opt x s)) (fst (opt x s'))"
    using assms(2) by (simp add: override_pure_def)
  have m: "deep_equal (fst (mapper x t)) (fst (mapper x t'))" for t t'
    using assms(1) by (simp add: mapper_pure_def)
  show ?thesis
  proof (cases "fst (opt x s)")
    case None
    with o have None': "fst (opt x s') = None" by (cases "fst (opt x s')") auto
    show ?thesis
      using None None' m assms(3)
      by (cases x) (simp_all add: recursiveMapperReducer_visit.simps split_beta)
  next
    case (Some v)
    with o obtain v' where "fst (opt x s') = Some v'" "deep_equal v v'"
      by (cases "fst (opt x s')") auto
    with Some show ?thesis
      by (simp add: recursiveMapperReducer_visit.simps[of _ _ _ _ x] split_beta)
  qed
qed

lemma visit_blind:
  assumes "seed_fresh init" "combine_pure (\<lambda>prev cur (k::unit). cb prev cur)"
    "mapper_pure mapper" "override_pure opt"
  shows "deep_equal (fst (recursiveMapperReducer_visit mapper cb init opt x pa s))
           (fst (recursiveMapperReducer_visit mapper cb init opt x pa' s'))"
proof (induction x arbitrary: pa pa' s s')
  case (JArr r xs)
  have o: "rel_option deep_equal (fst (opt (JArr r xs) s)) (fst (opt (JArr r xs) s'))"
    using assms(4) by (simp add: override_pure_def)
  show ?case
  proof (cases "fst (opt (JArr r xs) s)")
    case None
    with o have None': "fst (opt (JArr r xs) s') = None" by (cases "fst (opt (JArr r xs) s')") auto
    show ?thesis
      using None None' arr_fold_blind[OF assms(1,2), of xs
          "recursiveMapperReducer_visit mapper cb init opt" pa "snd (opt (JArr r xs) s)"
          pa' "snd (opt (JArr r xs) s')"] JArr.IH
      by (simp add: recursiveMapperReducer_visit.simps[of _ _ _ _ "JArr r xs"] split_beta)
  next
    case (Some v)
    with o obtain v' where "fst (opt (JArr r xs) s') = Some v'" "deep_equal v v'"
      by (cases "fst (opt (JArr r xs) s')") auto
    with Some show ?thesis
      by (simp add: recursiveMapperReducer_visit.simps[of _ _ _ _ "JArr r xs"] split_beta)
  qed
next
  case (JObj r kvs)
  have o: "rel_option deep_equal (fst (opt (JObj r kvs) s)) (fst (opt (JObj r kvs) s'))"
    using assms(4) by (simp add: override_pure_def)
  have IH: "deep_equal
      (fst (recursiveMapperReducer_visit mapper cb init opt (own_property kvs k) p t))
      (fst (recursiveMapperReducer_visit mapper cb init opt (own_property kvs k) p' t'))"
    if "k \<in> set (object_keys kvs)" for k p p' t t'
    using JObj.IH[OF own_property_in_set[OF that]] by simp
  show ?case
  proof (cases "fst (opt (JObj r kvs) s)")
    case None
    with o have None': "fst (opt (JObj r kvs) s') = None" by (cases "fst (opt (JObj r kvs) s')") auto
    show ?thesis
      using None None' obj_fold_blind[OF assms(1,2), of kvs
          "recursiveMapperReducer_visit mapper cb init opt" pa "snd (opt (JObj r kvs) s)"
          pa' "snd (opt (JObj r kvs) s')"] IH
      by (simp add: recursiveMapperReducer_visit.simps[of _ _ _ _ "JObj r kvs"] split_beta)
  next
    case (Some v)
    with o obtain v' where "fst (opt (JObj r kvs) s') = Some v'" "deep_equal v v'"
      by (cases "fst (opt (JObj r kvs) s')") auto
    with Some show ?thesis
      by (simp add: recursiveMapperReducer_visit.simps[of _ _ _ _ "JObj r kvs"] split_beta)
  qed
next
  case (JPromise x)
  have o: "rel_option deep_equal (fst (opt (JPromise x) s)) (fst (opt (JPromise x) s'))"
    using assms(4) by (simp add: override_pure_def)
  have seed: "deep_equal (fst (init t)) (fst (init t'))" for t t'
    using assms(1) by (simp add: seed_fresh_def)
  show ?case
  proof (cases "fst (opt (JPromise x) s)")
    case None
    with o have None': "fst (opt (JPromise x) s') = None" by (cases "fst (opt (JPromise x) s')") auto
    show ?thesis
      using None None' seed
      by (simp add: recursiveMapperReducer_visit.simps[of _ _ _ _ "JPromise x"] split_beta
          objReductionToRecursivePathFn_def recordReducer_def object_keys_def)
  next
    case (Some v)
    with o obtain v' where "fst (opt (JPromise x) s') = Some v'" "deep_equal v v'"
      by (cases "fst (opt (JPromise x) s')") auto
    with Some show ?thesis
      by (simp add: recursiveMapperReducer_visit.simps[of _ _ _ _ "JPromise x"] split_beta)
  qed
qed (simp_all add: visit_blind_leaf[OF assms(3,4)])

lemma deep_equal_JNum [simp]:
  "deep_equal (JNum n) b = (b = JNum n)" "deep_equal a (JNum n) = (a = JNum n)"
  by (cases b; auto simp: deep_equal_def) (cases a; auto simp: deep_equal_def)

lemma seed_fresh_const [simp]: "seed_fresh (\<lambda>s. (v, s))"
  by (simp add: seed_fresh_def)

lemma seed_fresh_list [simp]: "seed_fresh fresh_list_seed"
  by (simp add: seed_fresh_def fresh_list_seed_def deep_equal_def)

lemma combine_pure_push [simp]: "combine_pure push_combine"
  unfolding combine_pure_def push_combine_def deep_equal_def
  by (auto split: jsval.splits)

lemma js_plus_deep:
  "deep_equal a a' \<Longrightarrow> deep_equal b b' \<Longrightarrow> js_plus a b = js_plus a' b'"
  by (cases a; cases a'; cases b; cases b') (simp_all add: deep_equal_def js_plus_def)

lemma combine_pure_plus [simp]: "combine_pure (\<lambda>prev cur k s. (js_plus prev cur, s))"
  by (auto simp: combine_pure_def dest: js_plus_deep)

lemma mapper_pure_fun [simp]: "mapper_pure (\<lambda>a s. (f a, s))"
  by (simp add: mapper_pure_def)

lemma override_pure_fun [simp]: "override_pure (\<lambda>a s. (f a, s))"
  by (simp add: override_pure_def option.rel_refl)

lemma override_pure_default [simp]: "override_pure default_optionalMapper"
  by (simp add: override_pure_def default_optionalMapper_def empty_optional_def)


text \<open>
  With a seed that is shared rather than fresh the first call does leak into the second:
  the hypothesis on the seed is needed, and a leak is something this model shows.
\<close>

lemma shared_seed_leaks:
  "recordReducer shared_list_push shared_list_seed [(''b'', JNum 2)]
       (snd (recordReducer shared_list_push shared_list_seed [(''a'', JNum 1)] []))
     = (JArr 0 [JNum 1, JNum 2], [JNum 1, JNum 2]) \<and>
   recordReducer shared_list_push shared_list_seed [(''b'', JNum 2)] []
     = (JArr 0 [JNum 2], [JNum 2])"
  by (simp add: recordReducer_def shared_list_push_def shared_list_seed_def object_keys_def
      own_property_def)


text \<open>
  C8, as the specification states it, does not hold of the recursive fold built with an
  override handler: the seed, the combining function and the leaf mapper below are free
  of side effects, the override counts its calls in its closure, and the second call of
  the constructed fold returns 1 where a call on the same input in the initial state, which
  is what a freshly constructed fold gives, returns 0.
\<close>

theorem fold_reuse_override_counterexample:
  "seed_fresh (\<lambda>s::nat. (JNum 0, s)) \<and>
   combine_pure (\<lambda>prev cur (k::unit) (s::nat). (js_plus prev cur, s)) \<and>
   mapper_pure (\<lambda>a (s::nat). (JNum 0, s)) \<and>
   fst (countingFold (JArr 0 [JNum 7]) (snd (countingFold (JArr 0 [JNum 7]) 0))) = JNum 1 \<and>
   fst (countingFold (JArr 0 [JNum 7]) 0) = JNum 0"
proof (intro conjI)
  show "seed_fresh (\<lambda>s::nat. (JNum 0, s))" by simp
  show "combine_pure (\<lambda>prev cur (k::unit) (s::nat). (js_plus prev cur, s))" by simp
  show "mapper_pure (\<lambda>a (s::nat). (JNum 0, s))" by simp
  show "fst (countingFold (JArr 0 [JNum 7]) (snd (countingFold (JArr 0 [JNum 7]) 0))) = JNum 1"
    by (simp add: countingFold_def recursiveMapperReducer_def recursiveMapperReducer_visit.simps
        counting_override_def arrReductionToRecursivePathFn_def present_def empty_optional_def
        js_plus_def)
  show "fst (countingFold (JArr 0 [JNum 7]) 0) = JNum 0"
    by (simp add: countingFold_def recursiveMapperReducer_def recursiveMapperReducer_visit.simps
        counting_override_def arrReductionToRecursivePathFn_def present_def empty_optional_def
        js_plus_def)
qed

text \<open>
  C8, as the code has it. A constructed fold keeps no state of its own between calls: when
  the seed factory returns a fresh accumulator on each call and the combining function,
  the leaf mapper and, for a recursive fold built with one, the override handler are
  free of side effects on shared state, the result of a call on a second input, made after
  a call on a first input, is deep-equal to the result of the call on the second input
  alone, which is what a freshly constructed function gives. This holds of the flat record
  fold, of the recursive fold without an override and of the recursive fold with one.
\<close>

theorem fold_reuse_isolation:
  "(seed_fresh seed \<and> combine_pure combine \<longrightarrow>
      deep_equal
        (fst (recordReducer combine seed rec2 (snd (recordReducer combine seed rec1 s))))
        (fst (recordReducer combine seed rec2 s))) \<and>
   (seed_fresh seed' \<and> combine_pure (\<lambda>prev cur (k::unit). combine' prev cur) \<and>
    mapper_pure leafMapper \<longrightarrow>
      deep_equal
        (fst (recursiveMapperReducer leafMapper combine' seed' None x2
                (snd (recursiveMapperReducer leafMapper combine' seed' None x1 t))))
        (fst (recursiveMapperReducer leafMapper combine' seed' None x2 t))) \<and>
   (seed_fresh seed' \<and> combine_pure (\<lambda>prev cur (k::unit). combine' prev cur) \<and>
    mapper_pure leafMapper \<and> override_pure override \<longrightarrow>
      deep_equal
        (fst (recursiveMapperReducer leafMapper combine' seed' (Some override) x2
                (snd (recursiveMapperReducer leafMapper combine' seed' (Some override) x1 t))))
        (fst (recursiveMapperReducer leafMapper combine' seed' (Some override) x2 t)))"
  by (auto simp: recursiveMapperReducer_def intro: recordReducer_blind visit_blind)


theorem fold_reuse_isolation_witness:
  "seed_fresh fresh_list_seed \<and>
   combine_pure (push_combine :: jsval \<Rightarrow> jsval \<Rightarrow> string \<Rightarrow> heap \<Rightarrow> jsval \<times> heap) \<and>
   deep_equal
     (fst (recordReducer push_combine fresh_list_seed
             [(''a'', JObj 3 []), (''b'', JNull), (''c'', JStr ''h'')]
             (snd (recordReducer push_combine fresh_list_seed
                     [(''a'', JBool True), (''b'', JArr 2 [JNum 7]), (''c'', JNum 90)]
                     \<lparr>next_ref = 10\<rparr>))))
     (fst (recordReducer push_combine fresh_list_seed
             [(''a'', JObj 3 []), (''b'', JNull), (''c'', JStr ''h'')] \<lparr>next_ref = 10\<rparr>)) \<and>
   fst (recordReducer push_combine fresh_list_seed
          [(''a'', JObj 3 []), (''b'', JNull), (''c'', JStr ''h'')]
          (snd (recordReducer push_combine fresh_list_seed
                  [(''a'', JBool True), (''b'', JArr 2 [JNum 7]), (''c'', JNum 90)]
                  \<lparr>next_ref = 10\<rparr>)))
     = JArr 11 [JObj 3 [], JNull, JStr ''h''] \<and>
   seed_fresh (\<lambda>s::unit. (JNum 0, s)) \<and>
   combine_pure (\<lambda>prev cur (k::unit) (s::unit). (js_plus prev cur, s)) \<and>
   mapper_pure (\<lambda>a (s::unit). (case a of JNum n \<Rightarrow> JNum n | _ \<Rightarrow> JNum 0, s)) \<and>
   override_pure (\<lambda>a (s::unit). (case a of JArr r [] \<Rightarrow> present (JNum 1) | _ \<Rightarrow> empty_optional, s)) \<and>
   deep_equal
     (fst (sumNumbers (JObj 1 [(''a'', JObj 3 []), (''b'', JNull), (''c'', JStr ''h'')])
             (snd (sumNumbers
                     (JObj 1 [(''a'', JBool True), (''b'', JArr 2 [JNum 7]), (''c'', JNum 90)]) ()))))
     (fst (sumNumbers (JObj 1 [(''a'', JObj 3 []), (''b'', JNull), (''c'', JStr ''h'')]) ())) \<and>
   deep_equal
     (fst (recursiveMapperReducer
             (\<lambda>a s. (case a of JNum n \<Rightarrow> JNum n | _ \<Rightarrow> JNum 0, s))
             (\<lambda>prev cur s. (js_plus prev cur, s)) (\<lambda>s. (JNum 0, s))
             (Some (\<lambda>a s. (case a of JArr r [] \<Rightarrow> present (JNum 1) | _ \<Rightarrow> empty_optional, s)))
             (JArr 0 [JArr 1 [], JNum 5])
             (snd (recursiveMapperReducer
                     (\<lambda>a s. (case a of JNum n \<Rightarrow> JNum n | _ \<Rightarrow> JNum 0, s))
                     (\<lambda>prev cur s. (js_plus prev cur, s)) (\<lambda>s. (JNum 0, s))
                     (Some (\<lambda>a s. (case a of JArr r [] \<Rightarrow> present (JNum 1) | _ \<Rightarrow> empty_optional, s)))
                     (JArr 2 [JNum 3]) ()))))
     (fst (recursiveMapperReducer
             (\<lambda>a s. (case a of JNum n \<Rightarrow> JNum n | _ \<Rightarrow> JNum 0, s))
             (\<lambda>prev cur s. (js_plus prev cur, s)) (\<lambda>s. (JNum 0, s))
             (Some (\<lambda>a s. (case a of JArr r [] \<Rightarrow> present (JNum 1) | _ \<Rightarrow> empty_optional, s)))
             (JArr 0 [JArr 1 [], JNum 5]) ()))"
proof -
  have flat: "fst (recordReducer push_combine fresh_list_seed
          [(''a'', JObj 3 []), (''b'', JNull), (''c'', JStr ''h'')]
          (snd (recordReducer push_combine fresh_list_seed
                  [(''a'', JBool True), (''b'', JArr 2 [JNum 7]), (''c'', JNum 90)]
                  \<lparr>next_ref = 10\<rparr>)))
     = JArr 11 [JObj 3 [], JNull, JStr ''h'']"
    by (simp add: recordReducer_def push_combine_def fresh_list_seed_def object_keys_def
        own_property_def)
  have pure: "seed_fresh fresh_list_seed"
    "combine_pure (push_combine :: jsval \<Rightarrow> jsval \<Rightarrow> string \<Rightarrow> heap \<Rightarrow> jsval \<times> heap)"
    "seed_fresh (\<lambda>s::unit. (JNum 0, s))"
    "combine_pure (\<lambda>prev cur (k::unit) (s::unit). (js_plus prev cur, s))"
    "mapper_pure (\<lambda>a (s::unit). (case a of JNum n \<Rightarrow> JNum n | _ \<Rightarrow> JNum 0, s))"
    "override_pure (\<lambda>a (s::unit). (case a of JArr r [] \<Rightarrow> present (JNum 1) | _ \<Rightarrow> empty_optional, s))"
    by simp_all
  from fold_reuse_isolation
      [of fresh_list_seed push_combine
          "[(''a'', JObj 3 []), (''b'', JNull), (''c'', JStr ''h'')]"
          "[(''a'', JBool True), (''b'', JArr 2 [JNum 7]), (''c'', JNum 90)]"
          "\<lparr>next_ref = 10\<rparr>"
          "\<lambda>s::unit. (JNum 0, s)" "\<lambda>prev cur s. (js_plus prev cur, s)"
          "\<lambda>a s. (case a of JNum n \<Rightarrow> JNum n | _ \<Rightarrow> JNum 0, s)"
          "JObj 1 [(''a'', JObj 3 []), (''b'', JNull), (''c'', JStr ''h'')]"
          "JObj 1 [(''a'', JBool True), (''b'', JArr 2 [JNum 7]), (''c'', JNum 90)]" "()"
          "\<lambda>a s. (case a of JArr r [] \<Rightarrow> present (JNum 1) | _ \<Rightarrow> empty_optional, s)"]
    fold_reuse_isolation
      [of fresh_list_seed push_combine
          "[(''a'', JObj 3 []), (''b'', JNull), (''c'', JStr ''h'')]"
          "[(''a'', JBool True), (''b'', JArr 2 [JNum 7]), (''c'', JNum 90)]"
          "\<lparr>next_ref = 10\<rparr>"
          "\<lambda>s::unit. (JNum 0, s)" "\<lambda>prev cur s. (js_plus prev cur, s)"
          "\<lambda>a s. (case a of JNum n \<Rightarrow> JNum n | _ \<Rightarrow> JNum 0, s)"
          "JArr 0 [JArr 1 [], JNum 5]" "JArr 2 [JNum 3]" "()"
          "\<lambda>a s. (case a of JArr r [] \<Rightarrow> present (JNum 1) | _ \<Rightarrow> empty_optional, s)"]
    pure flat
  show ?thesis
    unfolding sumNumbers_def by blast
qed

end
